theory Spec2Isabelle
  imports Main "HOL-Library.Word"
begin

unbundle bit_operations_syntax

section \<open>Physical page allocator (kernel/kalloc.c)\<close>

subsection \<open>Machine data\<close>

type_synonym u64 = "64 word"
type_synonym u32 = "32 word"
type_synonym u8 = "8 word"

text \<open>Physical memory is an array of bytes indexed by 64-bit addresses.\<close>

type_synonym memory = "u64 \<Rightarrow> u8"

text \<open>A call of \<^verbatim>\<open>panic(msg)\<close> never returns; it is the error value of the model.\<close>

datatype panic = Panic string

text \<open>\<^verbatim>\<open>// Allocates whole 4096-byte pages.\<close>\<close>

definition PGSIZE :: u64 where
  "PGSIZE = 4096"

text \<open>
  Modelled from the spec: the macro \<^verbatim>\<open>PGROUNDUP\<close> of riscv.h, which is not among the
  sources. The spec says the range is partitioned into page-aligned pages; the macro
  rounds an address up to the next multiple of the page size.
\<close>

definition PGROUNDUP :: "u64 \<Rightarrow> u64" where
  "PGROUNDUP sz = (sz + PGSIZE - 1) AND NOT (PGSIZE - 1)"

text \<open>
  The constants that kalloc.c takes from headers and from the linker script:
  \<^verbatim>\<open>end\<close> (first address after the kernel), \<^verbatim>\<open>PHYSTOP\<close> and \<^verbatim>\<open>NCPU\<close>.
\<close>

record kparams =
  kernel_end :: u64
  PHYSTOP :: u64
  NCPU :: nat

text \<open>\<^verbatim>\<open>memset(dst, c, n)\<close>: the bytes \<open>dst, dst + 1, ..., dst + n - 1\<close> become \<open>c\<close>.\<close>

definition memset :: "memory \<Rightarrow> u64 \<Rightarrow> u8 \<Rightarrow> u64 \<Rightarrow> memory" where
  "memset m dst c n = (\<lambda>a. if a - dst < n then c else m a)"

text \<open>
  \<^verbatim>\<open>struct run { struct run *next; }\<close> occupies the first eight bytes of a free page.
  Reading and writing \<^verbatim>\<open>r->next\<close> is a little-endian 64-bit load and store at \<open>r\<close>.
\<close>

definition load64 :: "memory \<Rightarrow> u64 \<Rightarrow> u64" where
  "load64 m a =
     ucast (m a) OR push_bit 8 (ucast (m (a + 1))) OR push_bit 16 (ucast (m (a + 2)))
     OR push_bit 24 (ucast (m (a + 3))) OR push_bit 32 (ucast (m (a + 4)))
     OR push_bit 40 (ucast (m (a + 5))) OR push_bit 48 (ucast (m (a + 6)))
     OR push_bit 56 (ucast (m (a + 7)))"

definition store64 :: "memory \<Rightarrow> u64 \<Rightarrow> u64 \<Rightarrow> memory" where
  "store64 m a v = (\<lambda>x. if x - a < 8 then ucast (drop_bit (8 * unat (x - a)) v) else m x)"

subsection \<open>Allocator state\<close>

text \<open>
  \<^verbatim>\<open>struct { struct spinlock lock; struct run *freelist; } kmem_list[NCPU];\<close>
  A null \<^verbatim>\<open>freelist\<close> is the address 0.

  Modelled from the spec: the metadata mutex (spinlock.c is not among the sources). The
  model keeps one flag per lock: \<^verbatim>\<open>acquire\<close> marks the mutex held and \<^verbatim>\<open>release\<close>
  marks it free. Waiting for another holder is concurrency and is not represented.
\<close>

record kmem =
  lock :: bool
  freelist :: u64

record kstate =
  mem :: memory
  kmem_list :: "kmem list"

definition acquire :: "nat \<Rightarrow> kstate \<Rightarrow> kstate" where
  "acquire i s = s\<lparr>kmem_list := (kmem_list s)[i := (kmem_list s ! i)\<lparr>lock := True\<rparr>]\<rparr>"

definition release :: "nat \<Rightarrow> kstate \<Rightarrow> kstate" where
  "release i s = s\<lparr>kmem_list := (kmem_list s)[i := (kmem_list s ! i)\<lparr>lock := False\<rparr>]\<rparr>"

definition set_freelist :: "nat \<Rightarrow> u64 \<Rightarrow> kstate \<Rightarrow> kstate" where
  "set_freelist i r s = s\<lparr>kmem_list := (kmem_list s)[i := (kmem_list s ! i)\<lparr>freelist := r\<rparr>]\<rparr>"

text \<open>
  Static storage is zero-initialised: before \<^verbatim>\<open>kinit\<close> every \<^verbatim>\<open>freelist\<close> is null and
  no lock is held. The contents of memory are arbitrary.
\<close>

definition kboot :: "kparams \<Rightarrow> memory \<Rightarrow> kstate" where
  "kboot K m = \<lparr>mem = m, kmem_list = replicate (NCPU K) \<lparr>lock = False, freelist = 0\<rparr>\<rparr>"

subsection \<open>kfree\<close>

text \<open>
  \<open>cpu\<close> is the value of \<^verbatim>\<open>cpuid()\<close>, read between \<^verbatim>\<open>push_off()\<close> and
  \<^verbatim>\<open>pop_off()\<close>: the core that runs the call.
\<close>

definition kfree :: "kparams \<Rightarrow> nat \<Rightarrow> u64 \<Rightarrow> kstate \<Rightarrow> panic + kstate" where
  "kfree K cpu pa s =
     (if pa mod PGSIZE \<noteq> 0 \<or> pa < kernel_end K \<or> pa \<ge> PHYSTOP K
      then Inl (Panic ''kfree'')
      else
        let s1 = s\<lparr>mem := memset (mem s) pa 1 PGSIZE\<rparr>;
            r = pa;
            s2 = acquire cpu s1;
            s3 = s2\<lparr>mem := store64 (mem s2) r (freelist (kmem_list s2 ! cpu))\<rparr>;
            s4 = set_freelist cpu r s3
        in Inr (release cpu s4))"

subsection \<open>freerange and kinit\<close>

text \<open>
  \<^verbatim>\<open>for(; p + PGSIZE <= (char*)pa_end; p += PGSIZE) kfree(p);\<close>
  The addresses are 64-bit words, so the loop need not end for every bound;
  a run that does not return has the value \<open>None\<close>. A panic in \<^verbatim>\<open>kfree\<close> ends it.
\<close>

partial_function (option) freerange_loop ::
  "kparams \<Rightarrow> nat \<Rightarrow> u64 \<Rightarrow> u64 \<Rightarrow> kstate \<Rightarrow> (panic + kstate) option" where
  "freerange_loop K cpu p pa_end s =
     (if p + PGSIZE \<le> pa_end then
        (case kfree K cpu p s of
           Inl e \<Rightarrow> Some (Inl e)
         | Inr s' \<Rightarrow> freerange_loop K cpu (p + PGSIZE) pa_end s')
      else Some (Inr s))"

definition freerange :: "kparams \<Rightarrow> nat \<Rightarrow> u64 \<Rightarrow> u64 \<Rightarrow> kstate \<Rightarrow> (panic + kstate) option" where
  "freerange K cpu pa_start pa_end s = freerange_loop K cpu (PGROUNDUP pa_start) pa_end s"

text \<open>\<^verbatim>\<open>initlock\<close> leaves the lock free.\<close>

definition initlock :: "nat \<Rightarrow> kstate \<Rightarrow> kstate" where
  "initlock i s = s\<lparr>kmem_list := (kmem_list s)[i := (kmem_list s ! i)\<lparr>lock := False\<rparr>]\<rparr>"

definition kinit :: "kparams \<Rightarrow> nat \<Rightarrow> kstate \<Rightarrow> (panic + kstate) option" where
  "kinit K cpu s = freerange K cpu (kernel_end K) (PHYSTOP K) (fold initlock [0..<NCPU K] s)"

subsection \<open>kalloc\<close>

text \<open>The steal loop over \<open>i = 0, ..., NCPU - 1\<close>, skipping the calling core.\<close>

function kalloc_steal :: "kparams \<Rightarrow> nat \<Rightarrow> nat \<Rightarrow> kstate \<Rightarrow> u64 \<times> kstate" where
  "kalloc_steal K cpu i s =
     (if i < NCPU K then
        if i = cpu then kalloc_steal K cpu (i + 1) s
        else
          let s1 = acquire i s;
              r = freelist (kmem_list s1 ! i)
          in if r \<noteq> 0
             then (r, release i (set_freelist i (load64 (mem s1) r) s1))
             else kalloc_steal K cpu (i + 1) (release i s1)
      else (0, s))"
  by pat_completeness auto
termination
  by (relation "measure (\<lambda>(K, cpu, i, s). NCPU K - i)") auto

declare kalloc_steal.simps [simp del]

text \<open>The result 0 is the null pointer: no page could be allocated.\<close>

definition kalloc :: "kparams \<Rightarrow> nat \<Rightarrow> kstate \<Rightarrow> u64 \<times> kstate" where
  "kalloc K cpu s =
     (let s1 = acquire cpu s;
          r = freelist (kmem_list s1 ! cpu);
          s2 = (if r \<noteq> 0 then set_freelist cpu (load64 (mem s1) r) s1 else s1);
          s3 = release cpu s2;
          (r, s4) = (if r = 0 then kalloc_steal K cpu 0 s3 else (r, s3));
          s5 = (if r \<noteq> 0 then s4\<lparr>mem := memset (mem s4) r 5 PGSIZE\<rparr> else s4)
      in (r, s5))"

subsection \<open>Free lists as chains of pages\<close>

text \<open>The test of \<^verbatim>\<open>kfree\<close>: a page is accepted when it is aligned and lies in
  \<open>[end, PHYSTOP)\<close>.\<close>

definition page_aligned :: "u64 \<Rightarrow> bool" where
  "page_aligned p = (p mod PGSIZE = 0)"

definition valid_page :: "kparams \<Rightarrow> u64 \<Rightarrow> bool" where
  "valid_page K p = (page_aligned p \<and> kernel_end K \<le> p \<and> p < PHYSTOP K)"

text \<open>
  \<open>chain m h xs\<close>: following the \<^verbatim>\<open>next\<close> links in memory \<open>m\<close> from the head \<open>h\<close>
  visits exactly the pages \<open>xs\<close>, in this order, and then reaches the null pointer.
\<close>

fun chain :: "memory \<Rightarrow> u64 \<Rightarrow> u64 list \<Rightarrow> bool" where
  "chain m h [] = (h = 0)"
| "chain m h (x # xs) = (h = x \<and> x \<noteq> 0 \<and> chain m (load64 m x) xs)"

text \<open>\<open>on_chain m h p\<close>: the page \<open>p\<close> is met when the links are followed from \<open>h\<close>.\<close>

inductive on_chain :: "memory \<Rightarrow> u64 \<Rightarrow> u64 \<Rightarrow> bool" for m :: memory where
  on_chain_head: "h \<noteq> 0 \<Longrightarrow> on_chain m h h"
| on_chain_next: "h \<noteq> 0 \<Longrightarrow> on_chain m (load64 m h) p \<Longrightarrow> on_chain m h p"

text \<open>The pages that are on some core's free list.\<close>

definition kfree_pages :: "kstate \<Rightarrow> u64 set" where
  "kfree_pages s =
     {p. \<exists>i < length (kmem_list s). on_chain (mem s) (freelist (kmem_list s ! i)) p}"

text \<open>
  The allocator's invariant, with the contents \<open>ls ! i\<close> of each core's list made
  explicit: every list is a null-terminated chain of valid pages, no page occurs twice
  in a list or in two lists, and no lock is held between calls.
\<close>

definition kmem_inv :: "kparams \<Rightarrow> kstate \<Rightarrow> u64 list list \<Rightarrow> bool" where
  "kmem_inv K s ls =
     (length (kmem_list s) = NCPU K \<and> length ls = NCPU K \<and>
      (\<forall>i < NCPU K. chain (mem s) (freelist (kmem_list s ! i)) (ls ! i) \<and>
                      \<not> lock (kmem_list s ! i) \<and> distinct (ls ! i) \<and>
                      (\<forall>p \<in> set (ls ! i). valid_page K p)) \<and>
      (\<forall>i < NCPU K. \<forall>j < NCPU K. i \<noteq> j \<longrightarrow> set (ls ! i) \<inter> set (ls ! j) = {}))"

text \<open>A small configuration on which the model is evaluated: two cores and three pages
  after the kernel.\<close>

definition K_small :: kparams where
  "K_small = \<lparr>kernel_end = 0x1000, PHYSTOP = 0x4000, NCPU = 2\<rparr>"

definition mem0 :: memory where
  "mem0 = (\<lambda>a. 0)"

text \<open>
  The core whose list \<^verbatim>\<open>kalloc\<close> takes its page from, as the spec words it: the calling
  core's own list if it is non-empty, otherwise the first other core, in index order,
  whose list is non-empty; \<open>None\<close> if there is no such core. Here \<open>ls ! i\<close> is the
  content of core \<open>i\<close>'s list.
\<close>

definition kalloc_from :: "kparams \<Rightarrow> nat \<Rightarrow> u64 list list \<Rightarrow> nat option" where
  "kalloc_from K cpu ls =
     (if ls ! cpu \<noteq> [] then Some cpu
      else find (\<lambda>j. j \<noteq> cpu \<and> ls ! j \<noteq> []) [0..<NCPU K])"

text \<open>The state after the first page of list \<open>j\<close> has been unlinked and filled with 5.\<close>

definition kalloc_pop :: "nat \<Rightarrow> kstate \<Rightarrow> u64 \<times> kstate" where
  "kalloc_pop j s =
     (let r = freelist (kmem_list s ! j)
      in (r, \<lparr>mem = memset (mem s) r 5 PGSIZE,
              kmem_list = (kmem_list s)[j := \<lparr>lock = False, freelist = load64 (mem s) r\<rparr>]\<rparr>))"

text \<open>The state of the small configuration after core 1 has freed the page at 0x2000
  into the boot state with zeroed memory.\<close>

definition s_small1 :: kstate where
  "s_small1 =
     (case kfree K_small 1 0x2000 (kboot K_small mem0) of
        Inr s \<Rightarrow> s
      | Inl e \<Rightarrow> kboot K_small mem0)"

text \<open>
  A page freed while it is on another core's list: from the boot state core 1 frees the
  pages at 0x3000 and at 0x2000 (state \<open>s_small2\<close>, core 1's list is 0x2000, 0x3000),
  then core 0 frees the page at 0x2000 (state \<open>s_small3\<close>).
\<close>

definition s_small2 :: kstate where
  "s_small2 =
     (case kfree K_small 1 0x3000 (kboot K_small mem0) of
        Inl e \<Rightarrow> kboot K_small mem0
      | Inr s \<Rightarrow> (case kfree K_small 1 0x2000 s of Inl e \<Rightarrow> s | Inr s' \<Rightarrow> s'))"

definition s_small3 :: kstate where
  "s_small3 = (case kfree K_small 0 0x2000 s_small2 of Inl e \<Rightarrow> s_small2 | Inr s \<Rightarrow> s)"

subsection \<open>Initialisation and reachable states\<close>

text \<open>The pages \<open>p, p + PGSIZE, ...\<close> (\<open>n\<close> of them), in the order in which
  \<^verbatim>\<open>freerange\<close> frees them.\<close>

definition page_seq :: "u64 \<Rightarrow> nat \<Rightarrow> u64 list" where
  "page_seq p n = map (\<lambda>k. p + of_nat k * PGSIZE) [0..<n]"

definition kinit_pages :: "kparams \<Rightarrow> u64 list" where
  "kinit_pages K =
     page_seq (PGROUNDUP (kernel_end K))
       ((unat (PHYSTOP K) - unat (PGROUNDUP (kernel_end K))) div 4096)"

text \<open>
  Sane values of the constants: the kernel does not start at address 0, at least one
  page boundary lies between \<^verbatim>\<open>end\<close> and \<^verbatim>\<open>PHYSTOP\<close>, and \<^verbatim>\<open>PHYSTOP\<close> is more than a
  page below the top of the address space (so \<^verbatim>\<open>p + PGSIZE\<close> does not wrap around).
  xv6 has \<^verbatim>\<open>PHYSTOP = 0x88000000\<close>.
\<close>

definition kparams_ok :: "kparams \<Rightarrow> bool" where
  "kparams_ok K =
     (kernel_end K \<noteq> 0 \<and> unat (kernel_end K) + 4095 \<le> unat (PHYSTOP K) \<and>
      unat (PHYSTOP K) + 4096 < 2 ^ 64)"

text \<open>
  The states the allocator reaches when it is used as its comments ask: \<^verbatim>\<open>kinit\<close> on the
  boot state, \<^verbatim>\<open>kalloc\<close>, \<^verbatim>\<open>kfree\<close> of a page that is not on a free list at that
  moment, and stores by the rest of the kernel to bytes outside every free page.
\<close>

inductive kreach :: "kparams \<Rightarrow> kstate \<Rightarrow> bool" for K :: kparams where
  kreach_init: "cpu < NCPU K \<Longrightarrow> kinit K cpu (kboot K m) = Some (Inr s) \<Longrightarrow> kreach K s"
| kreach_free: "kreach K s \<Longrightarrow> cpu < NCPU K \<Longrightarrow> pa \<notin> kfree_pages s \<Longrightarrow>
     kfree K cpu pa s = Inr s' \<Longrightarrow> kreach K s'"
| kreach_alloc: "kreach K s \<Longrightarrow> cpu < NCPU K \<Longrightarrow> kalloc K cpu s = (r, s') \<Longrightarrow> kreach K s'"
| kreach_store: "kreach K s \<Longrightarrow> \<forall>p \<in> kfree_pages s. \<not> a - p < PGSIZE \<Longrightarrow>
     kreach K (s\<lparr>mem := (mem s)(a := v)\<rparr>)"

text \<open>The heads of the per-core lists, and the heads after \<^verbatim>\<open>kinit\<close> on a boot state.\<close>

definition kmem_heads :: "kstate \<Rightarrow> u64 list" where
  "kmem_heads s = map freelist (kmem_list s)"

definition kinit_heads :: "kparams \<Rightarrow> nat \<Rightarrow> memory \<Rightarrow> u64 list option" where
  "kinit_heads K cpu m =
     (case kinit K cpu (kboot K m) of
        Some (Inr s) \<Rightarrow> Some (kmem_heads s)
      | _ \<Rightarrow> None)"

text \<open>The state of the small configuration after core 0 has run \<^verbatim>\<open>kinit\<close>.\<close>

definition s_small_init :: kstate where
  "s_small_init =
     (case kinit K_small 0 (kboot K_small mem0) of
        Some (Inr s) \<Rightarrow> s
      | _ \<Rightarrow> kboot K_small mem0)"

text \<open>
  A run on the small configuration in which a page is freed twice: core 0 initialises,
  allocates a page \<open>p\<close>, frees it and frees it again; the next allocation returns \<open>a\<close>,
  whose owner stores \<open>a + 8\<close> into the first word of its page; two more allocations
  return \<open>b\<close> and \<open>c\<close>. The result lists \<open>p, a, b, c\<close>.
\<close>

definition double_free_run :: "u64 list option" where
  "double_free_run =
     (case kinit K_small 0 (kboot K_small mem0) of
        Some (Inr s0) \<Rightarrow>
          (let (p, s1) = kalloc K_small 0 s0 in
           case kfree K_small 0 p s1 of
             Inl e \<Rightarrow> None
           | Inr s2 \<Rightarrow>
               (case kfree K_small 0 p s2 of
                  Inl e \<Rightarrow> None
                | Inr s3 \<Rightarrow>
                    (let (a, s4) = kalloc K_small 0 s3;
                         s5 = s4\<lparr>mem := store64 (mem s4) a (a + 8)\<rparr>;
                         (b, s6) = kalloc K_small 0 s5;
                         (c, s7) = kalloc K_small 0 s6
                     in Some [p, a, b, c])))
      | _ \<Rightarrow> None)"

section \<open>Buffer cache (bio.c)\<close>

subsection \<open>Buffers and the cache\<close>

text \<open>\<^verbatim>\<open>#define NBUCKETS 7\<close>\<close>

definition NBUCKETS :: nat where
  "NBUCKETS = 7"

text \<open>
  A pointer to a \<^verbatim>\<open>struct buf\<close> of the cache: null, the address of the list head of
  bucket \<open>i\<close> (\<^verbatim>\<open>&bcache_list[i].head\<close>) or of slot \<open>j\<close> of bucket \<open>i\<close>
  (\<^verbatim>\<open>&bcache_list[i].buf[j]\<close>).
\<close>

datatype bref = Null | Head nat | Buf nat nat

text \<open>
  Modelled from the spec: \<^verbatim>\<open>struct buf\<close> (buf.h is not among the sources) with the fields
  that bio.c uses: identity (\<^verbatim>\<open>dev\<close>, \<^verbatim>\<open>blockno\<close>), \<^verbatim>\<open>valid\<close>, the reference count
  \<^verbatim>\<open>refcnt\<close> (an unsigned 32-bit integer), the exclusive lock, the recency links
  \<^verbatim>\<open>prev\<close> and \<^verbatim>\<open>next\<close>, and the payload \<^verbatim>\<open>data\<close>.

  Modelled from the spec: the exclusive lock (sleeplock.c is not among the sources) has at
  most one holder; \<open>buf_lock\<close> is \<open>None\<close> when it is free and \<open>Some pid\<close> when the process
  \<open>pid\<close> holds it.
\<close>

record buf =
  valid :: u32
  dev :: u32
  blockno :: u32
  buf_lock :: "nat option"
  refcnt :: u32
  prev :: bref
  "next" :: bref
  data :: "u8 list"

text \<open>
  Modelled from the spec: the storage collaborator (virtio_disk.c is not among the
  sources), a synchronous primitive addressed by device, block number and direction.
  The model keeps the contents of the disk and a log of the operations performed.
\<close>

datatype io = DiskRead u32 u32 | DiskWrite u32 u32

text \<open>
  The memory of all \<^verbatim>\<open>struct buf\<close>s (slots and list heads) of \<^verbatim>\<open>bcache_list\<close>, one
  flag per bucket for its spinlock (held or free, as for the allocator), the disk and
  the log of storage operations. Following the null pointer is not modelled as a trap;
  the theorems are about states whose lists are well formed, where it is never followed.
\<close>

record bcache =
  bufs :: "bref \<Rightarrow> buf"
  spin :: "nat \<Rightarrow> bool"
  disk :: "u32 \<times> u32 \<Rightarrow> u8 list"
  iolog :: "io list"

text \<open>An assignment to fields of the buffer at \<open>r\<close>.\<close>

definition upd :: "bref \<Rightarrow> (buf \<Rightarrow> buf) \<Rightarrow> bcache \<Rightarrow> bcache" where
  "upd r g s = s\<lparr>bufs := (bufs s)(r := g (bufs s r))\<rparr>"

definition acquire_bucket :: "nat \<Rightarrow> bcache \<Rightarrow> bcache" where
  "acquire_bucket i s = s\<lparr>spin := (spin s)(i := True)\<rparr>"

definition release_bucket :: "nat \<Rightarrow> bcache \<Rightarrow> bcache" where
  "release_bucket i s = s\<lparr>spin := (spin s)(i := False)\<rparr>"

text \<open>The outcome of a call that may panic or may have to wait for an exclusive lock:
  \<open>Waits s b\<close> is the call suspended in state \<open>s\<close> until the lock of \<open>b\<close> is released.\<close>

datatype 'a res = Fatal panic | Waits bcache bref | Returns 'a

definition holdingsleep :: "nat \<Rightarrow> buf \<Rightarrow> bool" where
  "holdingsleep pid x = (buf_lock x = Some pid)"

definition acquiresleep :: "nat \<Rightarrow> bref \<Rightarrow> bcache \<Rightarrow> (bcache \<times> bref) res" where
  "acquiresleep pid b s =
     (if buf_lock (bufs s b) = None
      then Returns (upd b (buf_lock_update (\<lambda>_. Some pid)) s, b)
      else Waits s b)"

definition releasesleep :: "bref \<Rightarrow> bcache \<Rightarrow> bcache" where
  "releasesleep b s = upd b (buf_lock_update (\<lambda>_. None)) s"

definition virtio_disk_rw :: "bref \<Rightarrow> bool \<Rightarrow> bcache \<Rightarrow> bcache" where
  "virtio_disk_rw b write s =
     (let x = bufs s b in
      if write
      then s\<lparr>disk := (disk s)((dev x, blockno x) := data x),
             iolog := iolog s @ [DiskWrite (dev x) (blockno x)]\<rparr>
      else (upd b (data_update (\<lambda>_. disk s (dev x, blockno x))) s)
             \<lparr>iolog := iolog s @ [DiskRead (dev x) (blockno x)]\<rparr>)"

subsection \<open>binit\<close>

text \<open>
  Static storage is zero-initialised. The disk and the size of a payload (\<^verbatim>\<open>BSIZE\<close> of
  fs.h) are parameters.
\<close>

definition bboot :: "(u32 \<times> u32 \<Rightarrow> u8 list) \<Rightarrow> nat \<Rightarrow> bcache" where
  "bboot d bsize =
     \<lparr>bufs = (\<lambda>r. \<lparr>valid = 0, dev = 0, blockno = 0, buf_lock = None, refcnt = 0,
                    prev = Null, next = Null, data = replicate bsize 0\<rparr>),
      spin = (\<lambda>i. False), disk = d, iolog = []\<rparr>"

text \<open>The body of the inner loop of \<^verbatim>\<open>binit\<close> for \<^verbatim>\<open>b = &bcache_list[i].buf[j]\<close>.\<close>

definition binit_insert :: "nat \<Rightarrow> nat \<Rightarrow> bcache \<Rightarrow> bcache" where
  "binit_insert i j s =
     (let b = Buf i j;
          s1 = upd b (next_update (\<lambda>_. next (bufs s (Head i)))) s;
          s2 = upd b (prev_update (\<lambda>_. Head i)) s1;
          s3 = upd b (buf_lock_update (\<lambda>_. None)) s2;
          s4 = upd (next (bufs s3 (Head i))) (prev_update (\<lambda>_. b)) s3
      in upd (Head i) (next_update (\<lambda>_. b)) s4)"

text \<open>\<open>nbuf\<close> is \<^verbatim>\<open>NBUF\<close> of param.h; each bucket has \<^verbatim>\<open>NBUF/NBUCKETS\<close> slots.\<close>

definition binit_bucket :: "nat \<Rightarrow> nat \<Rightarrow> bcache \<Rightarrow> bcache" where
  "binit_bucket nbuf i s =
     (let s1 = s\<lparr>spin := (spin s)(i := False)\<rparr>;
          s2 = upd (Head i) (prev_update (\<lambda>_. Head i)) s1;
          s3 = upd (Head i) (next_update (\<lambda>_. Head i)) s2
      in fold (binit_insert i) [0..<nbuf div NBUCKETS] s3)"

definition binit :: "nat \<Rightarrow> bcache \<Rightarrow> bcache" where
  "binit nbuf s = fold (binit_bucket nbuf) [0..<NBUCKETS] s"

subsection \<open>bget\<close>

text \<open>\<^verbatim>\<open>uint bucket_num = blockno % NBUCKETS;\<close>\<close>

definition bucket_of :: "u32 \<Rightarrow> nat" where
  "bucket_of bn = unat bn mod NBUCKETS"

text \<open>
  The two loops of \<^verbatim>\<open>bget\<close>. They follow \<^verbatim>\<open>next\<close> (or \<^verbatim>\<open>prev\<close>) until they are back at the
  list head; on an ill-formed list they need not end, and then the value is \<open>None\<close>.
  \<open>Some None\<close>: the loop ended at the head without a result.
\<close>

partial_function (option) bget_cached ::
  "bcache \<Rightarrow> u32 \<Rightarrow> u32 \<Rightarrow> bref \<Rightarrow> bref \<Rightarrow> bref option option" where
  "bget_cached s d bn h b =
     (if b = h then Some None
      else if dev (bufs s b) = d \<and> blockno (bufs s b) = bn then Some (Some b)
      else bget_cached s d bn h (next (bufs s b)))"

partial_function (option) bget_recycle ::
  "bcache \<Rightarrow> bref \<Rightarrow> bref \<Rightarrow> bref option option" where
  "bget_recycle s h b =
     (if b = h then Some None
      else if refcnt (bufs s b) = 0 then Some (Some b)
      else bget_recycle s h (prev (bufs s b)))"

text \<open>\<open>pid\<close> is the calling process, which will hold the exclusive lock.\<close>

definition bget :: "nat \<Rightarrow> u32 \<Rightarrow> u32 \<Rightarrow> bcache \<Rightarrow> (bcache \<times> bref) res option" where
  "bget pid d bn s =
     (let bucket_num = bucket_of bn;
          s1 = acquire_bucket bucket_num s
      in case bget_cached s1 d bn (Head bucket_num) (next (bufs s1 (Head bucket_num))) of
           None \<Rightarrow> None
         | Some (Some b) \<Rightarrow>
             (let s2 = upd b (refcnt_update (\<lambda>c. c + 1)) s1;
                  s3 = release_bucket bucket_num s2
              in Some (acquiresleep pid b s3))
         | Some None \<Rightarrow>
             (case bget_recycle s1 (Head bucket_num) (prev (bufs s1 (Head bucket_num))) of
                None \<Rightarrow> None
              | Some (Some b) \<Rightarrow>
                  (let s2 = upd b (dev_update (\<lambda>_. d)) s1;
                       s3 = upd b (blockno_update (\<lambda>_. bn)) s2;
                       s4 = upd b (valid_update (\<lambda>_. 0)) s3;
                       s5 = upd b (refcnt_update (\<lambda>_. 1)) s4;
                       s6 = release_bucket bucket_num s5
                   in Some (acquiresleep pid b s6))
              | Some None \<Rightarrow> Some (Fatal (Panic ''bget: no buffers''))))"

subsection \<open>bread, bwrite\<close>

text \<open>
  The part of \<^verbatim>\<open>bread\<close> after \<^verbatim>\<open>bget\<close> has returned:
  \<^verbatim>\<open>if(!b->valid) { virtio_disk_rw(b, 0); b->valid = 1; }\<close>. When \<^verbatim>\<open>bget\<close> has to wait
  for the exclusive lock, this part runs once the lock has been taken.
\<close>

definition bread_fill :: "bref \<Rightarrow> bcache \<Rightarrow> bcache" where
  "bread_fill b s =
     (if valid (bufs s b) = 0
      then upd b (valid_update (\<lambda>_. 1)) (virtio_disk_rw b False s)
      else s)"

definition bread :: "nat \<Rightarrow> u32 \<Rightarrow> u32 \<Rightarrow> bcache \<Rightarrow> (bcache \<times> bref) res option" where
  "bread pid d bn s =
     (case bget pid d bn s of
        None \<Rightarrow> None
      | Some (Fatal e) \<Rightarrow> Some (Fatal e)
      | Some (Waits s' b) \<Rightarrow> Some (Waits s' b)
      | Some (Returns (s1, b)) \<Rightarrow> Some (Returns (bread_fill b s1, b)))"

definition bwrite :: "nat \<Rightarrow> bref \<Rightarrow> bcache \<Rightarrow> panic + bcache" where
  "bwrite pid b s =
     (if \<not> holdingsleep pid (bufs s b) then Inl (Panic ''bwrite'')
      else Inr (virtio_disk_rw b True s))"

subsection \<open>brelse, bpin, bunpin\<close>

text \<open>The six assignments that move \<open>b\<close> to the front of the list of \<open>bucket_num\<close>.\<close>

definition brelse_relink :: "nat \<Rightarrow> bref \<Rightarrow> bcache \<Rightarrow> bcache" where
  "brelse_relink bucket_num b s =
     (let s1 = upd (next (bufs s b)) (prev_update (\<lambda>_. prev (bufs s b))) s;
          s2 = upd (prev (bufs s1 b)) (next_update (\<lambda>_. next (bufs s1 b))) s1;
          s3 = upd b (next_update (\<lambda>_. next (bufs s2 (Head bucket_num)))) s2;
          s4 = upd b (prev_update (\<lambda>_. Head bucket_num)) s3;
          s5 = upd (next (bufs s4 (Head bucket_num))) (prev_update (\<lambda>_. b)) s4
      in upd (Head bucket_num) (next_update (\<lambda>_. b)) s5)"

text \<open>The part of \<^verbatim>\<open>brelse\<close> between \<^verbatim>\<open>acquire\<close> and \<^verbatim>\<open>release\<close> of the bucket's spinlock.\<close>

definition brelse_locked :: "nat \<Rightarrow> bref \<Rightarrow> bcache \<Rightarrow> bcache" where
  "brelse_locked bucket_num b s =
     (let s1 = upd b (refcnt_update (\<lambda>c. c - 1)) s
      in if refcnt (bufs s1 b) = 0 then brelse_relink bucket_num b s1 else s1)"

definition brelse :: "nat \<Rightarrow> bref \<Rightarrow> bcache \<Rightarrow> panic + bcache" where
  "brelse pid b s =
     (if \<not> holdingsleep pid (bufs s b) then Inl (Panic ''brelse'')
      else
        let s1 = releasesleep b s;
            bucket_num = bucket_of (blockno (bufs s1 b));
            s2 = acquire_bucket bucket_num s1;
            s3 = brelse_locked bucket_num b s2
        in Inr (release_bucket bucket_num s3))"

definition bpin :: "bref \<Rightarrow> bcache \<Rightarrow> bcache" where
  "bpin b s =
     (let bucket_num = bucket_of (blockno (bufs s b));
          s1 = acquire_bucket bucket_num s;
          s2 = upd b (refcnt_update (\<lambda>c. c + 1)) s1
      in release_bucket bucket_num s2)"

definition bunpin :: "bref \<Rightarrow> bcache \<Rightarrow> bcache" where
  "bunpin b s =
     (let bucket_num = bucket_of (blockno (bufs s b));
          s1 = acquire_bucket bucket_num s;
          s2 = upd b (refcnt_update (\<lambda>c. c - 1)) s1
      in release_bucket bucket_num s2)"


subsection \<open>Recency lists\<close>

text \<open>
  \<open>walk f a xs z\<close>: following the link \<open>f\<close> from \<open>a\<close> visits exactly \<open>xs\<close>, in this
  order, and then arrives at \<open>z\<close>.
\<close>

fun walk :: "(bref \<Rightarrow> bref) \<Rightarrow> bref \<Rightarrow> bref list \<Rightarrow> bref \<Rightarrow> bool" where
  "walk f a [] z = (f a = z)"
| "walk f a (x # xs) z = (f a = x \<and> walk f x xs z)"

definition nexts :: "bcache \<Rightarrow> bref \<Rightarrow> bref" where
  "nexts s = (\<lambda>r. next (bufs s r))"

definition prevs :: "bcache \<Rightarrow> bref \<Rightarrow> bref" where
  "prevs s = (\<lambda>r. prev (bufs s r))"

text \<open>
  \<open>ring s i xs\<close>: the circular list of bucket \<open>i\<close> is well formed and holds the slots
  \<open>xs\<close>, from \<^verbatim>\<open>head.next\<close> (most recently released) to \<^verbatim>\<open>head.prev\<close> (least recently
  released); the slots are distinct slots of bucket \<open>i\<close>, and \<^verbatim>\<open>prev\<close> mirrors \<^verbatim>\<open>next\<close>.
\<close>

definition slot_of :: "nat \<Rightarrow> bref \<Rightarrow> bool" where
  "slot_of i x = (case x of Buf k j \<Rightarrow> k = i | _ \<Rightarrow> False)"

definition ring :: "bcache \<Rightarrow> nat \<Rightarrow> bref list \<Rightarrow> bool" where
  "ring s i xs =
     (walk (nexts s) (Head i) xs (Head i) \<and> walk (prevs s) (Head i) (rev xs) (Head i) \<and>
      distinct xs \<and> (\<forall>x \<in> set xs. slot_of i x))"

text \<open>
  The invariant of the cache, with the lists \<open>rl i\<close> of the buckets: every list is well
  formed, and a slot whose exclusive lock is held has a block number of its own bucket
  (\<^verbatim>\<open>brelse\<close> finds the list of a slot from its block number).
\<close>

definition bcache_inv :: "bcache \<Rightarrow> (nat \<Rightarrow> bref list) \<Rightarrow> bool" where
  "bcache_inv s rl =
     (\<forall>i < NBUCKETS. ring s i (rl i) \<and>
        (\<forall>b \<in> set (rl i). buf_lock (bufs s b) \<noteq> None \<longrightarrow> bucket_of (blockno (bufs s b)) = i))"

text \<open>The tests of the two loops of \<^verbatim>\<open>bget\<close>.\<close>

definition matches :: "bcache \<Rightarrow> u32 \<Rightarrow> u32 \<Rightarrow> bref \<Rightarrow> bool" where
  "matches s d bn b = (dev (bufs s b) = d \<and> blockno (bufs s b) = bn)"

definition unused :: "bcache \<Rightarrow> bref \<Rightarrow> bool" where
  "unused s b = (refcnt (bufs s b) = 0)"

text \<open>The fields of a buffer other than the two links.\<close>

definition content :: "buf \<Rightarrow> u32 \<times> u32 \<times> u32 \<times> nat option \<times> u32 \<times> u8 list" where
  "content x = (valid x, dev x, blockno x, buf_lock x, refcnt x, data x)"

text \<open>An empty disk, and the boot state of the cache with it (payloads of 8 bytes).\<close>

definition disk0 :: "u32 \<times> u32 \<Rightarrow> u8 list" where
  "disk0 = (\<lambda>a. replicate 8 0)"

definition b_boot :: bcache where
  "b_boot = bboot disk0 8"

text \<open>The cache after \<^verbatim>\<open>binit\<close> with \<^verbatim>\<open>NBUF = 14\<close>: two slots in each bucket.\<close>

definition b_init :: bcache where
  "b_init = binit 14 b_boot"

definition b_lists :: "nat \<Rightarrow> bref list" where
  "b_lists i = [Buf i 1, Buf i 0]"


text \<open>The state in which process 1 has got the slot \<open>Buf 1 0\<close> for block 1 of device 0.\<close>

definition b_got :: bcache where
  "b_got = b_init\<lparr>bufs := (bufs b_init)(Buf 1 0 := (bufs b_init (Buf 1 0))
              \<lparr>dev := 0, blockno := 1, valid := 0, refcnt := 1, buf_lock := Some 1\<rparr>),
            spin := (spin b_init)(1 := False)\<rparr>"

subsection \<open>Bytes and words\<close>

lemma ucast_u8_u64: "(ucast (ucast (w::u64) :: u8) :: u64) = take_bit 8 w"
  by (rule bit_word_eqI) (auto simp: bit_simps)

lemma byte_step:
  "push_bit k (take_bit 8 (drop_bit k v)) OR push_bit (k + 8) (drop_bit (k + 8) v)
     = push_bit k (drop_bit k (v::u64))"
proof (rule bit_word_eqI)
  fix n assume "n < LENGTH(64)"
  show "bit (push_bit k (take_bit 8 (drop_bit k v)) OR push_bit (k + 8) (drop_bit (k + 8) v)) n
      = bit (push_bit k (drop_bit k v)) n"
  proof (cases "n < k + 8")
    case True
    then show ?thesis by (auto simp: bit_simps)
  next
    case False
    then have "k + 8 + (n - (k + 8)) = n" "k + (n - k) = n" "k \<le> n" by simp_all
    with False show ?thesis by (auto simp: bit_simps)
  qed
qed

lemma byte_top: "take_bit 8 (drop_bit 56 (v::u64)) = drop_bit 56 v"
  by (rule bit_word_eqI) (auto simp: bit_simps dest: bit_imp_le_length)

lemma bytes_join:
  "(ucast (ucast v :: u8) :: u64) OR push_bit 8 (ucast (ucast (drop_bit 8 v) :: u8))
   OR push_bit 16 (ucast (ucast (drop_bit 16 v) :: u8))
   OR push_bit 24 (ucast (ucast (drop_bit 24 v) :: u8))
   OR push_bit 32 (ucast (ucast (drop_bit 32 v) :: u8))
   OR push_bit 40 (ucast (ucast (drop_bit 40 v) :: u8))
   OR push_bit 48 (ucast (ucast (drop_bit 48 v) :: u8))
   OR push_bit 56 (ucast (ucast (drop_bit 56 v) :: u8)) = (v::u64)"
  using byte_step [of 48 v] byte_step [of 40 v] byte_step [of 32 v] byte_step [of 24 v]
    byte_step [of 16 v] byte_step [of 8 v] byte_step [of 0 v]
  by (simp only: ucast_u8_u64 byte_top) simp

lemma load64_store64: "load64 (store64 m a v) a = v"
  using bytes_join [of v] by (simp add: load64_def store64_def)

lemma load64_cong:
  "(\<And>i. i < 8 \<Longrightarrow> m' (a + i) = m (a + i)) \<Longrightarrow> load64 m' a = load64 m a"
proof -
  assume h: "\<And>i. i < 8 \<Longrightarrow> m' (a + i) = m (a + i)"
  have "m' a = m a" using h [of 0] by simp
  moreover have "m' (a + 1) = m (a + 1)" "m' (a + 2) = m (a + 2)" "m' (a + 3) = m (a + 3)"
    "m' (a + 4) = m (a + 4)" "m' (a + 5) = m (a + 5)" "m' (a + 6) = m (a + 6)"
    "m' (a + 7) = m (a + 7)"
    by (rule h, simp)+
  ultimately show ?thesis by (simp add: load64_def)
qed

subsection \<open>Pages do not overlap\<close>

lemma page_aligned_unat: "page_aligned p = (unat p mod 4096 = 0)"
  by (simp add: page_aligned_def PGSIZE_def unat_mod word_unat_eq_iff)

lemma mult_gap: "(a::nat) mod k = 0 \<Longrightarrow> b mod k = 0 \<Longrightarrow> a < b \<Longrightarrow> a + k \<le> b"
proof -
  assume a: "a mod k = 0" and b: "b mod k = 0" and l: "a < b"
  from a obtain x where x: "a = k * x" by (auto simp: mod_eq_0_iff_dvd)
  from b obtain y where y: "b = k * y" by (auto simp: mod_eq_0_iff_dvd)
  from l x y have "x < y" by (metis mult_less_cancel1)
  then have "k * (x + 1) \<le> k * y" by (intro mult_le_mono2) simp
  then show ?thesis using x y by simp
qed

lemma aligned_top: "page_aligned p \<Longrightarrow> unat p + 4096 \<le> 2 ^ 64"
proof -
  assume "page_aligned p"
  then have a: "unat p mod 4096 = 0" by (simp add: page_aligned_unat)
  have "unat p < 2 ^ 64" using unsigned_less [of p] by simp
  moreover have "(2 ^ 64 :: nat) mod 4096 = 0" by simp
  ultimately show ?thesis using mult_gap [OF a, of "2 ^ 64"] by simp
qed

lemma pages_apart:
  assumes p: "page_aligned p" and q: "page_aligned q" and ne: "p \<noteq> q" and i: "i < 8"
  shows "\<not> (q + i - p < PGSIZE)"
proof -
  have pm: "unat p mod 4096 = 0" and qm: "unat q mod 4096 = 0"
    using p q by (simp_all add: page_aligned_unat)
  have tp: "unat p + 4096 \<le> 2 ^ 64" and tq: "unat q + 4096 \<le> 2 ^ 64"
    using aligned_top p q by auto
  have ui: "unat i < 8" using i by (simp add: word_less_nat_alt)
  have qi: "unat (q + i) = unat q + unat i"
    using tq ui by (simp add: unat_add_lem [THEN iffD1])
  have neq: "unat p \<noteq> unat q" using ne by (simp add: word_unat_eq_iff)
  then consider "unat p < unat q" | "unat q < unat p" by linarith
  then have "4096 \<le> unat (q + i - p)"
  proof cases
    case 1
    then have g: "unat p + 4096 \<le> unat q" using mult_gap [OF pm qm] by simp
    then have "unat (q + i - p) = unat q + unat i - unat p"
      using qi by (simp add: unat_sub_if')
    then show ?thesis using g by simp
  next
    case 2
    then have g: "unat q + 4096 \<le> unat p" using mult_gap [OF qm pm] by simp
    then have "unat (q + i - p) = 2 ^ 64 + (unat q + unat i) - unat p"
      using qi ui by (simp add: unat_sub_if')
    then show ?thesis using g tp ui by simp
  qed
  then show ?thesis by (simp add: word_less_nat_alt PGSIZE_def)
qed

lemma load64_memset_other:
  "page_aligned p \<Longrightarrow> page_aligned q \<Longrightarrow> p \<noteq> q \<Longrightarrow>
   load64 (memset m p c PGSIZE) q = load64 m q"
  by (rule load64_cong) (simp add: memset_def pages_apart)

lemma load64_store64_other:
  assumes "page_aligned p" "page_aligned q" "p \<noteq> q"
  shows "load64 (store64 m p v) q = load64 m q"
proof (rule load64_cong)
  fix i :: u64 assume "i < 8"
  then have "\<not> (q + i - p < PGSIZE)" using assms by (simp add: pages_apart)
  then have "\<not> (q + i - p < 8)" by (simp add: PGSIZE_def word_less_nat_alt)
  then show "store64 m p v (q + i) = m (q + i)" by (simp add: store64_def)
qed

text \<open>A store by the owner of an allocated page: one byte outside every free page.\<close>

lemma load64_upd_other:
  assumes "\<not> (a - q < PGSIZE)"
  shows "load64 (m(a := v)) q = load64 m q"
proof (rule load64_cong)
  fix i :: u64 assume i: "i < 8"
  have "q + i \<noteq> a"
  proof
    assume "q + i = a"
    then have "a - q = q + i - q" by simp
    then have "a - q = i" by simp
    with i have "a - q < PGSIZE" by (simp add: PGSIZE_def word_less_nat_alt)
    with assms show False by simp
  qed
  then show "(m(a := v)) (q + i) = m (q + i)" by simp
qed

subsection \<open>Chains\<close>

lemma chain_cong:
  "(\<And>x. x \<in> set xs \<Longrightarrow> load64 m' x = load64 m x) \<Longrightarrow> chain m' h xs = chain m h xs"
  by (induction xs arbitrary: h) auto

lemma chain_empty_iff: "chain m h xs \<Longrightarrow> (xs = []) = (h = 0)"
  by (cases xs) auto

lemma chain_unique: "chain m h xs \<Longrightarrow> chain m h ys \<Longrightarrow> xs = ys"
proof (induction xs arbitrary: h ys)
  case Nil
  then show ?case by (cases ys) auto
next
  case (Cons x xs)
  then show ?case by (cases ys) auto
qed

lemma on_chain_in_chain: "on_chain m h p \<Longrightarrow> chain m h xs \<Longrightarrow> p \<in> set xs"
proof (induction arbitrary: xs rule: on_chain.induct)
  case (on_chain_head h)
  then show ?case by (cases xs) auto
next
  case (on_chain_next h p)
  then show ?case by (cases xs) auto
qed

lemma in_chain_on_chain: "chain m h xs \<Longrightarrow> p \<in> set xs \<Longrightarrow> on_chain m h p"
proof (induction xs arbitrary: h)
  case Nil
  then show ?case by simp
next
  case (Cons x xs)
  then show ?case by (auto intro: on_chain.intros)
qed

lemma on_chain_iff: "chain m h xs \<Longrightarrow> on_chain m h p = (p \<in> set xs)"
  by (blast intro: on_chain_in_chain in_chain_on_chain)

lemma kfree_pages_inv:
  assumes "kmem_inv K s ls"
  shows "kfree_pages s = (\<Union>i < NCPU K. set (ls ! i))"
proof -
  have len: "length (kmem_list s) = NCPU K" using assms by (simp add: kmem_inv_def)
  have "on_chain (mem s) (freelist (kmem_list s ! i)) p = (p \<in> set (ls ! i))"
    if "i < NCPU K" for i p
    using assms that by (simp add: kmem_inv_def on_chain_iff)
  then show ?thesis using len by (auto simp: kfree_pages_def)
qed

subsection \<open>The effect of kfree\<close>

lemma valid_page_test:
  "valid_page K pa = (\<not> (pa mod PGSIZE \<noteq> 0 \<or> pa < kernel_end K \<or> pa \<ge> PHYSTOP K))"
  by (simp only: valid_page_def page_aligned_def de_Morgan_disj not_not not_less not_le)

lemma kmem_unlock_idem: "\<not> lock k \<Longrightarrow> k\<lparr>lock := False\<rparr> = k"
  by (cases k) simp

lemma kmem_pushed: "k\<lparr>freelist := r, lock := False\<rparr> = \<lparr>lock = False, freelist = r\<rparr>"
  by (cases k) simp

lemma kstate_updated: "s\<lparr>mem := a, kmem_list := b\<rparr> = \<lparr>mem = a, kmem_list = b\<rparr>"
  by (cases s) simp

lemma kstate_same_list: "s\<lparr>kmem_list := kmem_list s\<rparr> = s"
  by (cases s) simp

lemma release_acquire:
  "i < length (kmem_list s) \<Longrightarrow> \<not> lock (kmem_list s ! i) \<Longrightarrow> release i (acquire i s) = s"
  by (simp add: release_def acquire_def kmem_unlock_idem kstate_same_list)

lemma kfree_valid:
  assumes "valid_page K pa" and "cpu < length (kmem_list s)"
  shows "kfree K cpu pa s =
           Inr \<lparr>mem = store64 (memset (mem s) pa 1 PGSIZE) pa (freelist (kmem_list s ! cpu)),
                kmem_list = (kmem_list s)[cpu := \<lparr>lock = False, freelist = pa\<rparr>]\<rparr>"
  using assms
  by (simp add: kfree_def valid_page_test Let_def acquire_def release_def set_freelist_def
      kmem_pushed kstate_updated)

lemma kfree_invalid: "\<not> valid_page K pa \<Longrightarrow> kfree K cpu pa s = Inl (Panic ''kfree'')"
  by (auto simp: kfree_def valid_page_test)

lemma load64_freed_other:
  "page_aligned pa \<Longrightarrow> page_aligned q \<Longrightarrow> q \<noteq> pa \<Longrightarrow>
   load64 (store64 (memset m pa c PGSIZE) pa v) q = load64 m q"
  by (simp add: load64_store64_other load64_memset_other)

lemma valid_page_nonzero: "kernel_end K \<noteq> 0 \<Longrightarrow> valid_page K p \<Longrightarrow> p \<noteq> 0"
  by (auto simp: valid_page_def word_le_nat_alt word_unat_eq_iff)

lemma kfree_inv:
  assumes inv: "kmem_inv K s ls" and cpu: "cpu < NCPU K" and v: "valid_page K pa"
    and fresh: "\<forall>i < NCPU K. pa \<notin> set (ls ! i)" and e: "kernel_end K \<noteq> 0"
  shows "\<exists>s'. kfree K cpu pa s = Inr s' \<and> kmem_inv K s' (ls[cpu := pa # ls ! cpu])"
proof -
  let ?m' = "store64 (memset (mem s) pa 1 PGSIZE) pa (freelist (kmem_list s ! cpu))"
  let ?s' = "\<lparr>mem = ?m', kmem_list = (kmem_list s)[cpu := \<lparr>lock = False, freelist = pa\<rparr>]\<rparr>"
  let ?ls' = "ls[cpu := pa # ls ! cpu]"
  have len: "length (kmem_list s) = NCPU K" "length ls = NCPU K"
    using inv by (simp_all add: kmem_inv_def)
  have run: "kfree K cpu pa s = Inr ?s'"
    using v cpu len by (simp add: kfree_valid)
  have pa: "page_aligned pa" "pa \<noteq> 0"
    using v e valid_page_nonzero by (auto simp: valid_page_def)
  have same: "load64 ?m' x = load64 (mem s) x" if "i < NCPU K" "x \<in> set (ls ! i)" for i x
  proof -
    have "valid_page K x" using inv that by (simp add: kmem_inv_def)
    moreover have "x \<noteq> pa" using fresh that by auto
    ultimately show ?thesis using pa by (simp add: load64_freed_other valid_page_def)
  qed
  have ch: "chain ?m' (freelist (kmem_list s ! i)) (ls ! i)" if "i < NCPU K" for i
  proof -
    have "chain (mem s) (freelist (kmem_list s ! i)) (ls ! i)"
      using inv that by (simp add: kmem_inv_def)
    moreover have "chain ?m' (freelist (kmem_list s ! i)) (ls ! i)
        = chain (mem s) (freelist (kmem_list s ! i)) (ls ! i)"
      by (rule chain_cong) (rule same [OF that])
    ultimately show ?thesis by simp
  qed
  have nth_l: "kmem_list ?s' ! i = (if i = cpu then \<lparr>lock = False, freelist = pa\<rparr> else kmem_list s ! i)"
    if "i < NCPU K" for i
    using that len by (simp add: nth_list_update)
  have nth_ls: "?ls' ! i = (if i = cpu then pa # ls ! cpu else ls ! i)" if "i < NCPU K" for i
    using that len by (simp add: nth_list_update)
  have old: "\<not> lock (kmem_list s ! i)" "distinct (ls ! i)" "\<forall>p \<in> set (ls ! i). valid_page K p"
    if "i < NCPU K" for i
    using inv that by (simp_all add: kmem_inv_def)
  have disj: "set (ls ! i) \<inter> set (ls ! j) = {}" if "i < NCPU K" "j < NCPU K" "i \<noteq> j" for i j
    using inv that by (simp add: kmem_inv_def)
  have "kmem_inv K ?s' ?ls'"
    unfolding kmem_inv_def
  proof (intro conjI allI impI)
    show "length (kmem_list ?s') = NCPU K" using len by simp
    show "length ?ls' = NCPU K" using len by simp
  next
    fix i assume i: "i < NCPU K"
    show "chain (mem ?s') (freelist (kmem_list ?s' ! i)) (?ls' ! i)"
    proof (cases "i = cpu")
      case True
      have "chain ?m' pa (pa # ls ! cpu)"
        using pa ch [OF cpu] by (simp add: load64_store64)
      then show ?thesis using True nth_l [OF i] nth_ls [OF i] by simp
    next
      case False
      then show ?thesis using ch [OF i] nth_l [OF i] nth_ls [OF i] by simp
    qed
    show "\<not> lock (kmem_list ?s' ! i)"
      using old(1) [OF i] nth_l [OF i] by (cases "i = cpu") simp_all
    show "distinct (?ls' ! i)"
      using old(2) [OF i] fresh i nth_ls [OF i] by (cases "i = cpu") simp_all
    show "\<forall>p \<in> set (?ls' ! i). valid_page K p"
      using old(3) [OF i] v nth_ls [OF i] by (cases "i = cpu") simp_all
  next
    fix i j assume ij: "i < NCPU K" "j < NCPU K" "i \<noteq> j"
    have f: "pa \<notin> set (ls ! i)" "pa \<notin> set (ls ! j)" using fresh ij by simp_all
    show "set (?ls' ! i) \<inter> set (?ls' ! j) = {}"
      using disj [OF ij] f ij(3) nth_ls [OF ij(1)] nth_ls [OF ij(2)]
      by (cases "i = cpu"; cases "j = cpu") simp_all
  qed
  with run show ?thesis by blast
qed

lemma kboot_inv: "kmem_inv K (kboot K m) (replicate (NCPU K) [])"
  by (simp add: kmem_inv_def kboot_def)

lemma kfree_pages_kboot: "kfree_pages (kboot K m) = {}"
  using kfree_pages_inv [OF kboot_inv, of K m] by simp

lemma memset_inside: "a - dst < n \<Longrightarrow> memset m dst c n a = c"
  by (simp add: memset_def)

lemma memset_outside: "\<not> a - dst < n \<Longrightarrow> memset m dst c n a = m a"
  by (simp add: memset_def)

lemma store64_outside: "\<not> a - dst < 8 \<Longrightarrow> store64 m dst v a = m a"
  by (simp add: store64_def)

lemma not_in_page_not_in_link: "\<not> a - pa < PGSIZE \<Longrightarrow> \<not> a - pa < (8::u64)"
  by (simp add: PGSIZE_def word_less_nat_alt)

text \<open>
  Claim C6, as the code has it. \<^verbatim>\<open>kfree\<close> panics exactly when the pointer is not
  page-aligned or lies outside \<open>[end, PHYSTOP)\<close>. Otherwise it returns: the whole page
  has been filled with the byte 1 and the link to the old head of the calling core's list
  has then been written into its first eight bytes; bytes outside the page are
  unchanged; the page is the new head of the calling core's list, and the head pointer
  and lock of every other core are unchanged. If moreover the lists are well formed and
  the page is not on any free list when it is freed, then the calling core's list gains
  exactly this page at its front and every other core's list keeps its content.
\<close>

theorem kfree_spec:
  assumes cpu: "cpu < length (kmem_list s)"
  shows "(\<not> valid_page K pa \<longrightarrow> kfree K cpu pa s = Inl (Panic ''kfree'')) \<and>
    (valid_page K pa \<longrightarrow>
      (\<exists>s'. kfree K cpu pa s = Inr s' \<and>
         mem s' = store64 (memset (mem s) pa 1 PGSIZE) pa (freelist (kmem_list s ! cpu)) \<and>
         (\<forall>a. a - pa < PGSIZE \<and> \<not> a - pa < 8 \<longrightarrow> mem s' a = 1) \<and>
         (\<forall>a. \<not> a - pa < PGSIZE \<longrightarrow> mem s' a = mem s a) \<and>
         load64 (mem s') pa = freelist (kmem_list s ! cpu) \<and>
         kmem_list s' = (kmem_list s)[cpu := \<lparr>lock = False, freelist = pa\<rparr>] \<and>
         (\<forall>ls. kernel_end K \<noteq> 0 \<and> kmem_inv K s ls \<and> pa \<notin> kfree_pages s \<longrightarrow>
            kmem_inv K s' (ls[cpu := pa # ls ! cpu]))))"
proof (intro conjI impI)
  assume "\<not> valid_page K pa"
  then show "kfree K cpu pa s = Inl (Panic ''kfree'')" by (rule kfree_invalid)
next
  assume v: "valid_page K pa"
  let ?s' = "\<lparr>mem = store64 (memset (mem s) pa 1 PGSIZE) pa (freelist (kmem_list s ! cpu)),
              kmem_list = (kmem_list s)[cpu := \<lparr>lock = False, freelist = pa\<rparr>]\<rparr>"
  have run: "kfree K cpu pa s = Inr ?s'" using v cpu by (rule kfree_valid)
  have fill: "\<forall>a. a - pa < PGSIZE \<and> \<not> a - pa < 8 \<longrightarrow> mem ?s' a = 1"
    by (simp add: store64_outside memset_inside)
  have out: "\<forall>a. \<not> a - pa < PGSIZE \<longrightarrow> mem ?s' a = mem s a"
    by (simp add: store64_outside memset_outside not_in_page_not_in_link)
  have link: "load64 (mem ?s') pa = freelist (kmem_list s ! cpu)"
    by (simp add: load64_store64)
  have inv: "kmem_inv K ?s' (ls[cpu := pa # ls ! cpu])"
    if h: "kernel_end K \<noteq> 0 \<and> kmem_inv K s ls \<and> pa \<notin> kfree_pages s" for ls
  proof -
    have n: "cpu < NCPU K" using h cpu by (simp add: kmem_inv_def)
    have "\<forall>i < NCPU K. pa \<notin> set (ls ! i)"
      using h kfree_pages_inv [of K s ls] by auto
    then obtain s' where "kfree K cpu pa s = Inr s'" "kmem_inv K s' (ls[cpu := pa # ls ! cpu])"
      using kfree_inv [of K s ls cpu pa] h n v by blast
    then show ?thesis using run by simp
  qed
  show "\<exists>s'. kfree K cpu pa s = Inr s' \<and>
         mem s' = store64 (memset (mem s) pa 1 PGSIZE) pa (freelist (kmem_list s ! cpu)) \<and>
         (\<forall>a. a - pa < PGSIZE \<and> \<not> a - pa < 8 \<longrightarrow> mem s' a = 1) \<and>
         (\<forall>a. \<not> a - pa < PGSIZE \<longrightarrow> mem s' a = mem s a) \<and>
         load64 (mem s') pa = freelist (kmem_list s ! cpu) \<and>
         kmem_list s' = (kmem_list s)[cpu := \<lparr>lock = False, freelist = pa\<rparr>] \<and>
         (\<forall>ls. kernel_end K \<noteq> 0 \<and> kmem_inv K s ls \<and> pa \<notin> kfree_pages s \<longrightarrow>
            kmem_inv K s' (ls[cpu := pa # ls ! cpu]))"
    using run fill out link inv by (intro exI [of _ ?s']) simp
qed

lemma valid_page_small: "valid_page K_small 0x2000" "\<not> valid_page K_small 0x2008"
  "\<not> valid_page K_small 0x4000" "\<not> valid_page K_small 0"
  by (simp_all add: valid_page_def page_aligned_def K_small_def PGSIZE_def)

subsection \<open>The effect of kalloc\<close>

lemma kmem_popped: "k\<lparr>lock := True, freelist := r, lock := False\<rparr> = \<lparr>lock = False, freelist = r\<rparr>"
  by (cases k) simp

lemma kmem_popped': "k\<lparr>lock := True\<rparr>\<lparr>freelist := r\<rparr>\<lparr>lock := False\<rparr> = \<lparr>lock = False, freelist = r\<rparr>"
  by (cases k) simp

lemma kstate_list_updated: "s\<lparr>kmem_list := b\<rparr> = \<lparr>mem = mem s, kmem_list = b\<rparr>"
  by (cases s) simp

lemma take_head:
  "i < length (kmem_list s) \<Longrightarrow>
   release i (set_freelist i v (acquire i s))
     = \<lparr>mem = mem s, kmem_list = (kmem_list s)[i := \<lparr>lock = False, freelist = v\<rparr>]\<rparr>"
  by (simp add: release_def set_freelist_def acquire_def kmem_popped kstate_list_updated)

lemma acquire_reads: "i < length (kmem_list s) \<Longrightarrow>
  freelist (kmem_list (acquire i s) ! i) = freelist (kmem_list s ! i) \<and> mem (acquire i s) = mem s"
  by (simp add: acquire_def)

lemma kalloc_steal_eq:
  assumes "length (kmem_list s) = NCPU K" and "\<forall>j < NCPU K. \<not> lock (kmem_list s ! j)"
  shows "kalloc_steal K cpu i s =
           (case find (\<lambda>j. j \<noteq> cpu \<and> freelist (kmem_list s ! j) \<noteq> 0) [i..<NCPU K] of
              None \<Rightarrow> (0, s)
            | Some j \<Rightarrow> (freelist (kmem_list s ! j),
                \<lparr>mem = mem s,
                 kmem_list = (kmem_list s)[j := \<lparr>lock = False,
                                freelist = load64 (mem s) (freelist (kmem_list s ! j))\<rparr>]\<rparr>))"
  using assms
proof (induction K cpu i s rule: kalloc_steal.induct)
  case (1 K cpu i s)
  show ?case
  proof (cases "i < NCPU K")
    case False
    then show ?thesis by (subst kalloc_steal.simps) simp
  next
    case True
    then have upt: "[i..<NCPU K] = i # [i + 1..<NCPU K]" by (simp add: upt_conv_Cons)
    have il: "i < length (kmem_list s)" using True "1.prems" by simp
    have relacq: "release i (acquire i s) = s"
      using il True "1.prems" by (simp add: release_acquire)
    show ?thesis
    proof (cases "i = cpu")
      case same: True
      have "kalloc_steal K cpu i s = kalloc_steal K cpu (i + 1) s"
        using True same by (subst kalloc_steal.simps) simp
      also have "\<dots> = (case find (\<lambda>j. j \<noteq> cpu \<and> freelist (kmem_list s ! j) \<noteq> 0) [i + 1..<NCPU K] of
              None \<Rightarrow> (0, s)
            | Some j \<Rightarrow> (freelist (kmem_list s ! j),
                \<lparr>mem = mem s,
                 kmem_list = (kmem_list s)[j := \<lparr>lock = False,
                                freelist = load64 (mem s) (freelist (kmem_list s ! j))\<rparr>]\<rparr>))"
        using "1.IH"(1) [OF True same] "1.prems" by simp
      finally show ?thesis using same upt by simp
    next
      case other: False
      show ?thesis
      proof (cases "freelist (kmem_list s ! i) = 0")
        case empty: True
        have "kalloc_steal K cpu i s = kalloc_steal K cpu (i + 1) s"
          using True other empty il relacq
          by (subst kalloc_steal.simps) (simp add: Let_def acquire_reads)
        also have "\<dots> = (case find (\<lambda>j. j \<noteq> cpu \<and> freelist (kmem_list s ! j) \<noteq> 0) [i + 1..<NCPU K] of
              None \<Rightarrow> (0, s)
            | Some j \<Rightarrow> (freelist (kmem_list s ! j),
                \<lparr>mem = mem s,
                 kmem_list = (kmem_list s)[j := \<lparr>lock = False,
                                freelist = load64 (mem s) (freelist (kmem_list s ! j))\<rparr>]\<rparr>))"
          using "1.IH"(2) [OF True other refl refl, unfolded relacq] empty il "1.prems"
          by (simp add: acquire_reads)
        finally show ?thesis using empty upt by simp
      next
        case full: False
        have "kalloc_steal K cpu i s = (freelist (kmem_list s ! i),
            release i (set_freelist i (load64 (mem s) (freelist (kmem_list s ! i))) (acquire i s)))"
          using True other full il
          by (subst kalloc_steal.simps) (simp add: Let_def acquire_reads)
        then show ?thesis using full other upt il by (simp add: take_head)
      qed
    qed
  qed
qed

lemma kalloc_eq:
  assumes len: "length (kmem_list s) = NCPU K" and free: "\<forall>j < NCPU K. \<not> lock (kmem_list s ! j)"
    and cpu: "cpu < NCPU K"
  shows "kalloc K cpu s =
           (case (if freelist (kmem_list s ! cpu) \<noteq> 0 then Some cpu
                  else find (\<lambda>j. j \<noteq> cpu \<and> freelist (kmem_list s ! j) \<noteq> 0) [0..<NCPU K]) of
              None \<Rightarrow> (0, s)
            | Some j \<Rightarrow> kalloc_pop j s)"
proof (cases "freelist (kmem_list s ! cpu) = 0")
  case False
  have il: "cpu < length (kmem_list s)" using len cpu by simp
  show ?thesis
    using False il
    by (simp add: kalloc_def Let_def acquire_reads take_head kalloc_pop_def)
next
  case True
  have il: "cpu < length (kmem_list s)" using len cpu by simp
  have relacq: "release cpu (acquire cpu s) = s"
    using il cpu free by (simp add: release_acquire)
  have k: "kalloc K cpu s =
      (let (r, s4) = kalloc_steal K cpu 0 s;
           s5 = (if r \<noteq> 0 then s4\<lparr>mem := memset (mem s4) r 5 PGSIZE\<rparr> else s4)
       in (r, s5))"
    using True il relacq by (simp add: kalloc_def Let_def acquire_reads)
  show ?thesis
  proof (cases "find (\<lambda>j. j \<noteq> cpu \<and> freelist (kmem_list s ! j) \<noteq> 0) [0..<NCPU K]")
    case None
    then show ?thesis using True k kalloc_steal_eq [OF len free, of cpu 0] by simp
  next
    case (Some j)
    then have "freelist (kmem_list s ! j) \<noteq> 0" by (auto simp: find_Some_iff)
    then show ?thesis
      using True Some k kalloc_steal_eq [OF len free, of cpu 0]
      by (simp add: kalloc_pop_def Let_def)
  qed
qed

lemma kalloc_pop_inv:
  assumes inv: "kmem_inv K s ls" and j: "j < NCPU K" and ne: "ls ! j \<noteq> []"
  shows "fst (kalloc_pop j s) = hd (ls ! j) \<and>
         kmem_inv K (snd (kalloc_pop j s)) (ls[j := tl (ls ! j)]) \<and>
         (\<forall>a. a - hd (ls ! j) < PGSIZE \<longrightarrow> mem (snd (kalloc_pop j s)) a = 5)"
proof -
  obtain r rest where l: "ls ! j = r # rest" using ne by (cases "ls ! j") auto
  have len: "length (kmem_list s) = NCPU K" "length ls = NCPU K"
    using inv by (simp_all add: kmem_inv_def)
  have "chain (mem s) (freelist (kmem_list s ! j)) (ls ! j)"
    using inv j by (simp add: kmem_inv_def)
  then have chj: "chain (mem s) (freelist (kmem_list s ! j)) (r # rest)"
    using l by simp
  then have hd: "freelist (kmem_list s ! j) = r" and nxt: "chain (mem s) (load64 (mem s) r) rest"
    by simp_all
  let ?m' = "memset (mem s) r 5 PGSIZE"
  let ?s' = "\<lparr>mem = ?m', kmem_list = (kmem_list s)[j := \<lparr>lock = False, freelist = load64 (mem s) r\<rparr>]\<rparr>"
  let ?ls' = "ls[j := rest]"
  have pop: "kalloc_pop j s = (r, ?s')" using hd by (simp add: kalloc_pop_def)
  have old: "\<not> lock (kmem_list s ! i)" "distinct (ls ! i)" "\<forall>p \<in> set (ls ! i). valid_page K p"
    "chain (mem s) (freelist (kmem_list s ! i)) (ls ! i)"
    if "i < NCPU K" for i
    using inv that by (simp_all add: kmem_inv_def)
  have disj: "set (ls ! i) \<inter> set (ls ! k) = {}" if "i < NCPU K" "k < NCPU K" "i \<noteq> k" for i k
    using inv that by (simp add: kmem_inv_def)
  have r: "page_aligned r" "r \<notin> set rest"
    using old(2,3) [OF j] l by (simp_all add: valid_page_def)
  have nth_l: "kmem_list ?s' ! i =
      (if i = j then \<lparr>lock = False, freelist = load64 (mem s) r\<rparr> else kmem_list s ! i)"
    if "i < NCPU K" for i
    using that len by (simp add: nth_list_update)
  have nth_ls: "?ls' ! i = (if i = j then rest else ls ! i)" if "i < NCPU K" for i
    using that len by (simp add: nth_list_update)
  have same: "load64 ?m' x = load64 (mem s) x" if "i < NCPU K" "x \<in> set (?ls' ! i)" for i x
  proof -
    have "x \<in> set (ls ! i)" using that nth_ls [OF that(1)] l by (cases "i = j") simp_all
    then have "valid_page K x" using old(3) [OF that(1)] by simp
    moreover have "x \<noteq> r"
    proof (cases "i = j")
      case True
      then show ?thesis using that nth_ls [OF that(1)] r by auto
    next
      case False
      then have "set (ls ! i) \<inter> set (ls ! j) = {}" using disj that j by simp
      then show ?thesis using \<open>x \<in> set (ls ! i)\<close> l by auto
    qed
    ultimately show ?thesis using r by (simp add: load64_memset_other valid_page_def)
  qed
  have ch: "chain ?m' h (?ls' ! i) = chain (mem s) h (?ls' ! i)" if "i < NCPU K" for i h
    by (rule chain_cong) (rule same [OF that])
  have "kmem_inv K ?s' ?ls'"
    unfolding kmem_inv_def
  proof (intro conjI allI impI)
    show "length (kmem_list ?s') = NCPU K" using len by simp
    show "length ?ls' = NCPU K" using len by simp
  next
    fix i assume i: "i < NCPU K"
    show "chain (mem ?s') (freelist (kmem_list ?s' ! i)) (?ls' ! i)"
    proof (cases "i = j")
      case True
      have "chain ?m' (load64 (mem s) r) (?ls' ! j)"
        using ch [OF j] nxt nth_ls [OF j] by simp
      then show ?thesis using True nth_l [OF i] by simp
    next
      case False
      have "chain ?m' (freelist (kmem_list s ! i)) (?ls' ! i)"
        using ch [OF i] old(4) [OF i] nth_ls [OF i] False by simp
      then show ?thesis using False nth_l [OF i] by simp
    qed
    show "\<not> lock (kmem_list ?s' ! i)"
      using old(1) [OF i] nth_l [OF i] by (cases "i = j") simp_all
    show "distinct (?ls' ! i)"
      using old(2) [OF i] l nth_ls [OF i] by (cases "i = j") auto
    show "\<forall>p \<in> set (?ls' ! i). valid_page K p"
      using old(3) [OF i] l nth_ls [OF i] by (cases "i = j") auto
  next
    fix i k assume ik: "i < NCPU K" "k < NCPU K" "i \<noteq> k"
    have sub: "set (?ls' ! i) \<subseteq> set (ls ! i)" "set (?ls' ! k) \<subseteq> set (ls ! k)"
      using l nth_ls [OF ik(1)] nth_ls [OF ik(2)] by (cases "i = j"; cases "k = j"; auto)+
    show "set (?ls' ! i) \<inter> set (?ls' ! k) = {}"
      using disj [OF ik] sub by blast
  qed
  moreover have "\<forall>a. a - r < PGSIZE \<longrightarrow> mem ?s' a = 5" by (simp add: memset_inside)
  ultimately show ?thesis using pop l by simp
qed

lemma find_same_pred:
  "(\<And>x. x \<in> set xs \<Longrightarrow> P x = Q x) \<Longrightarrow> find P xs = find Q xs"
  by (induction xs) auto

lemma kalloc_source_inv:
  assumes inv: "kmem_inv K s ls" and cpu: "cpu < NCPU K"
  shows "(if freelist (kmem_list s ! cpu) \<noteq> 0 then Some cpu
          else find (\<lambda>j. j \<noteq> cpu \<and> freelist (kmem_list s ! j) \<noteq> 0) [0..<NCPU K])
         = kalloc_from K cpu ls"
proof -
  have e: "(ls ! i = []) = (freelist (kmem_list s ! i) = 0)" if "i < NCPU K" for i
    using inv that chain_empty_iff [of "mem s" "freelist (kmem_list s ! i)" "ls ! i"]
    by (simp add: kmem_inv_def)
  have "find (\<lambda>j. j \<noteq> cpu \<and> freelist (kmem_list s ! j) \<noteq> 0) [0..<NCPU K]
      = find (\<lambda>j. j \<noteq> cpu \<and> ls ! j \<noteq> []) [0..<NCPU K]"
    by (rule find_same_pred) (simp add: e)
  then show ?thesis using e [OF cpu] by (simp add: kalloc_from_def)
qed

text \<open>
  Claim C7. On a state whose free lists are well-formed chains with contents \<open>ls\<close>,
  \<^verbatim>\<open>kalloc\<close> returns the null pointer if and only if every core's list is empty. It takes
  the first page of the calling core's list if that list is non-empty, otherwise the first
  page of the first non-empty list of another core in index order; exactly this page
  leaves exactly this list, every other list keeps its content, and the page is filled
  with the byte 5. When all lists are empty the state is unchanged and the result is null:
  the model of \<^verbatim>\<open>kalloc\<close> has no panic.
\<close>

theorem kalloc_spec:
  assumes inv: "kmem_inv K s ls" and cpu: "cpu < NCPU K"
  shows "(fst (kalloc K cpu s) = 0 \<longleftrightarrow> (\<forall>i < NCPU K. ls ! i = [])) \<and>
    (case kalloc_from K cpu ls of
       None \<Rightarrow> kalloc K cpu s = (0, s)
     | Some j \<Rightarrow> j < NCPU K \<and> ls ! j \<noteq> [] \<and>
         fst (kalloc K cpu s) = hd (ls ! j) \<and>
         kmem_inv K (snd (kalloc K cpu s)) (ls[j := tl (ls ! j)]) \<and>
         (\<forall>a. a - hd (ls ! j) < PGSIZE \<longrightarrow> mem (snd (kalloc K cpu s)) a = 5))"
proof -
  have len: "length (kmem_list s) = NCPU K" and free: "\<forall>j < NCPU K. \<not> lock (kmem_list s ! j)"
    using inv by (simp_all add: kmem_inv_def)
  have eq: "kalloc K cpu s = (case kalloc_from K cpu ls of None \<Rightarrow> (0, s) | Some j \<Rightarrow> kalloc_pop j s)"
    using kalloc_eq [OF len free cpu] kalloc_source_inv [OF inv cpu] by simp
  show ?thesis
  proof (cases "kalloc_from K cpu ls")
    case None
    then have c: "ls ! cpu = []" and f: "find (\<lambda>j. j \<noteq> cpu \<and> ls ! j \<noteq> []) [0..<NCPU K] = None"
      by (auto simp: kalloc_from_def split: if_splits)
    have "ls ! i = []" if "i < NCPU K" for i
      using that c f by (cases "i = cpu") (auto simp: find_None_iff)
    then show ?thesis using None eq by simp
  next
    case (Some j)
    then have j: "j < NCPU K" "ls ! j \<noteq> []"
      using cpu by (auto simp: kalloc_from_def find_Some_iff split: if_splits)
    have ch: "chain (mem s) (freelist (kmem_list s ! j)) (ls ! j)"
      using inv j by (simp add: kmem_inv_def)
    have "hd (ls ! j) \<noteq> 0" using ch j(2) by (cases "ls ! j") auto
    then show ?thesis
      using Some eq j kalloc_pop_inv [OF inv j] by auto
  qed
qed

lemma s_small1_inv: "kmem_inv K_small s_small1 [[], [0x2000]]"
proof -
  have "kmem_inv K_small (kboot K_small mem0) [[], []]"
    using kboot_inv [of K_small mem0] by (simp add: K_small_def numeral_2_eq_2)
  moreover have "(1::nat) < NCPU K_small" "kernel_end K_small \<noteq> 0" by (simp_all add: K_small_def)
  moreover have "\<forall>i < NCPU K_small. 0x2000 \<notin> set ([[], []] ! i)"
    by (auto simp: K_small_def less_Suc_eq numeral_2_eq_2)
  ultimately have "\<exists>s'. kfree K_small 1 0x2000 (kboot K_small mem0) = Inr s' \<and>
    kmem_inv K_small s' ([[], []][1 := 0x2000 # [[], []] ! 1])"
    using valid_page_small(1) by (intro kfree_inv)
  then show ?thesis by (auto simp: s_small1_def)
qed

theorem kalloc_spec_witness:
  "kmem_inv K_small s_small1 [[], [0x2000]] \<and> (0::nat) < NCPU K_small \<and>
   kalloc_from K_small 0 [[], [0x2000]] = Some 1 \<and>
   fst (kalloc K_small 0 s_small1) = 0x2000 \<and>
   kmem_inv K_small (snd (kalloc K_small 0 s_small1)) [[], []] \<and>
   mem (snd (kalloc K_small 0 s_small1)) 0x2000 = 5 \<and>
   kalloc_from K_small 0 [[], []] = None \<and>
   kalloc K_small 0 (kboot K_small mem0) = (0, kboot K_small mem0)"
proof -
  have c: "(0::nat) < NCPU K_small" by (simp add: K_small_def)
  have f: "kalloc_from K_small 0 [[], [0x2000]] = Some 1" "kalloc_from K_small 0 [[], []] = None"
    by (simp_all add: kalloc_from_def K_small_def upt_rec)
  have b: "kmem_inv K_small (kboot K_small mem0) [[], []]"
    using kboot_inv [of K_small mem0] by (simp add: K_small_def numeral_2_eq_2)
  have "fst (kalloc K_small 0 s_small1) = 0x2000 \<and>
   kmem_inv K_small (snd (kalloc K_small 0 s_small1)) [[], []] \<and>
   mem (snd (kalloc K_small 0 s_small1)) 0x2000 = 5"
    using kalloc_spec [OF s_small1_inv c] f(1) by (simp add: PGSIZE_def)
  moreover have "kalloc K_small 0 (kboot K_small mem0) = (0, kboot K_small mem0)"
    using kalloc_spec [OF b c] f(2) by simp
  ultimately show ?thesis using s_small1_inv c f by simp
qed

subsection \<open>Rounding up to a page boundary\<close>

lemma page_mask: "(PGSIZE - 1 :: u64) = mask 12"
  by (simp add: PGSIZE_def mask_eq_exp_minus_1)

lemma and_not_mask12: "(x :: u64) AND NOT (mask 12) = push_bit 12 (drop_bit 12 x)"
proof (rule bit_word_eqI)
  fix n assume "n < LENGTH(64)"
  show "bit (x AND NOT (mask 12)) n = bit (push_bit 12 (drop_bit 12 x)) n"
  proof (cases "n < 12")
    case True
    then show ?thesis by (auto simp: bit_simps)
  next
    case False
    then have "12 + (n - 12) = n" by simp
    with False show ?thesis by (auto simp: bit_simps)
  qed
qed

lemma unat_round_down: "unat (push_bit 12 (drop_bit 12 (x :: u64))) = (unat x div 4096) * 4096"
proof -
  have le: "(unat x div 4096) * 4096 \<le> unat x" by simp
  have "unat x < 2 ^ 64" using unsigned_less [of x] by simp
  with le have lt: "(unat x div 4096) * 4096 < 2 ^ 64" by linarith
  have "unat (push_bit 12 (drop_bit 12 x)) = take_bit 64 (push_bit 12 (drop_bit 12 (unat x)))"
    by (simp add: unsigned_push_bit_eq unat_drop_bit_eq)
  also have "push_bit 12 (drop_bit 12 (unat x)) = (unat x div 4096) * 4096"
    by (simp add: push_bit_eq_mult drop_bit_eq_div)
  also have "take_bit 64 ((unat x div 4096) * 4096) = (unat x div 4096) * 4096"
    using lt by (simp add: take_bit_nat_eq_self)
  finally show ?thesis .
qed

lemma PGROUNDUP_alt: "PGROUNDUP a = push_bit 12 (drop_bit 12 (a + 4095))"
proof -
  have e: "a + PGSIZE - 1 = a + 4095" by (simp add: PGSIZE_def)
  show ?thesis unfolding PGROUNDUP_def page_mask and_not_mask12 by (simp only: e)
qed

lemma unat_PGROUNDUP:
  assumes "unat a + 4095 < 2 ^ 64"
  shows "unat (PGROUNDUP a) = ((unat a + 4095) div 4096) * 4096"
proof -
  have "unat (a + 4095) = unat a + 4095"
    using assms by (simp add: unat_add_lem [THEN iffD1])
  then show ?thesis by (simp only: PGROUNDUP_alt unat_round_down)
qed

lemma PGROUNDUP_aligned: "page_aligned (PGROUNDUP a)"
  by (simp only: page_aligned_unat PGROUNDUP_alt unat_round_down) simp

lemma round_up_bounds:
  fixes n :: nat
  shows "n \<le> (n + 4095) div 4096 * 4096" and "(n + 4095) div 4096 * 4096 \<le> n + 4095"
proof -
  have "(n + 4095) div 4096 * 4096 + (n + 4095) mod 4096 = n + 4095" by simp
  moreover have "(n + 4095) mod 4096 < 4096" by simp
  ultimately show "n \<le> (n + 4095) div 4096 * 4096" by linarith
  show "(n + 4095) div 4096 * 4096 \<le> n + 4095" by simp
qed

lemma round_up_least:
  fixes n m :: nat
  assumes "m mod 4096 = 0" and "n \<le> m"
  shows "(n + 4095) div 4096 * 4096 \<le> m"
proof -
  obtain k where k: "m = 4096 * k" using assms(1) by (auto simp: mod_eq_0_iff_dvd)
  have "n + 4095 < (k + 1) * 4096" using assms(2) k by simp
  then have "(n + 4095) div 4096 < k + 1" by (simp add: less_mult_imp_div_less)
  then have "(n + 4095) div 4096 \<le> k" by simp
  then have "(n + 4095) div 4096 * 4096 \<le> k * 4096" by (rule mult_le_mono1)
  then show ?thesis using k by simp
qed

lemma PGROUNDUP_ge:
  assumes "unat a + 4095 < 2 ^ 64"
  shows "unat a \<le> unat (PGROUNDUP a)" and "unat (PGROUNDUP a) \<le> unat a + 4095"
  using round_up_bounds [of "unat a"] by (simp_all only: unat_PGROUNDUP [OF assms])

lemma PGROUNDUP_least:
  assumes "unat a + 4095 < 2 ^ 64" and "page_aligned p" and "a \<le> p"
  shows "unat (PGROUNDUP a) \<le> unat p"
proof -
  have "unat p mod 4096 = 0" "unat a \<le> unat p"
    using assms by (simp_all add: page_aligned_unat word_le_nat_alt)
  then show ?thesis using round_up_least by (simp only: unat_PGROUNDUP [OF assms(1)])
qed

subsection \<open>The loop of freerange\<close>

lemma initlock_idem:
  "\<forall>j < length (kmem_list s). \<not> lock (kmem_list s ! j) \<Longrightarrow> initlock i s = s"
proof (cases "i < length (kmem_list s)")
  case True
  assume "\<forall>j < length (kmem_list s). \<not> lock (kmem_list s ! j)"
  with True show ?thesis by (simp add: initlock_def kmem_unlock_idem kstate_same_list)
next
  case False
  then have "length (kmem_list s) \<le> i" by simp
  then have "(kmem_list s)[i := (kmem_list s ! i)\<lparr>lock := False\<rparr>] = kmem_list s"
    by (rule list_update_beyond)
  then show ?thesis by (simp only: initlock_def kstate_same_list)
qed

lemma fold_initlock_idem:
  "\<forall>j < length (kmem_list s). \<not> lock (kmem_list s ! j) \<Longrightarrow> fold initlock xs s = s"
  by (induction xs) (simp_all add: initlock_idem)

lemma page_seq_Suc: "page_seq p (Suc n) = p # page_seq (p + PGSIZE) n"
proof -
  have "[0..<Suc n] = 0 # map Suc [0..<n]" by (simp add: upt_conv_Cons map_Suc_upt del: upt_Suc)
  then have "page_seq p (Suc n) = p # map (\<lambda>k. p + of_nat (Suc k) * PGSIZE) [0..<n]"
    unfolding page_seq_def by (simp add: comp_def del: upt_Suc)
  moreover have "p + of_nat (Suc k) * PGSIZE = p + PGSIZE + of_nat k * PGSIZE" for k
    by (simp add: algebra_simps)
  ultimately show ?thesis by (simp add: page_seq_def)
qed

lemma unat_next_page: "unat p + 4096 < 2 ^ 64 \<Longrightarrow> unat (p + PGSIZE) = unat p + 4096"
  by (simp add: PGSIZE_def unat_add_lem [THEN iffD1])

lemma freerange_loop_run:
  assumes e: "kernel_end K \<noteq> 0" and cpu: "cpu < NCPU K"
    and top: "unat pa_end + 4096 < 2 ^ 64" and pe: "pa_end \<le> PHYSTOP K"
  shows "kmem_inv K s ls \<Longrightarrow> page_aligned p \<Longrightarrow> kernel_end K \<le> p \<Longrightarrow>
         (\<forall>i < NCPU K. \<forall>x \<in> set (ls ! i). unat x < unat p) \<Longrightarrow>
         unat p + n * 4096 \<le> unat pa_end \<Longrightarrow> unat pa_end < unat p + (n + 1) * 4096 \<Longrightarrow>
         \<exists>s'. freerange_loop K cpu p pa_end s = Some (Inr s') \<and>
              kmem_inv K s' (ls[cpu := rev (page_seq p n) @ ls ! cpu])"
proof (induction n arbitrary: p s ls)
  case 0
  have "unat (p + PGSIZE) = unat p + 4096" using 0 top by (simp add: unat_next_page)
  then have "\<not> p + PGSIZE \<le> pa_end" using 0 by (simp add: word_le_nat_alt)
  then have "freerange_loop K cpu p pa_end s = Some (Inr s)"
    by (subst freerange_loop.simps) simp
  then show ?case using 0 by (simp add: page_seq_def)
next
  case (Suc n)
  have up: "unat (p + PGSIZE) = unat p + 4096" using Suc.prems top by (simp add: unat_next_page)
  have cond: "p + PGSIZE \<le> pa_end" using Suc.prems up by (simp add: word_le_nat_alt)
  have "unat p < unat (PHYSTOP K)" using Suc.prems pe by (simp add: word_le_nat_alt)
  then have v: "valid_page K p"
    using Suc.prems by (simp add: valid_page_def word_less_nat_alt)
  have fresh: "\<forall>i < NCPU K. p \<notin> set (ls ! i)" using Suc.prems(4) by auto
  let ?ls1 = "ls[cpu := p # ls ! cpu]"
  obtain s1 where s1: "kfree K cpu p s = Inr s1" "kmem_inv K s1 ?ls1"
    using kfree_inv [OF Suc.prems(1) cpu v fresh e] by blast
  have len: "length ls = NCPU K" using Suc.prems(1) by (simp add: kmem_inv_def)
  have al: "page_aligned (p + PGSIZE)"
    using Suc.prems(2) up by (simp add: page_aligned_unat)
  have ge: "kernel_end K \<le> p + PGSIZE" using Suc.prems(3) up by (simp add: word_le_nat_alt)
  have below: "\<forall>i < NCPU K. \<forall>x \<in> set (?ls1 ! i). unat x < unat (p + PGSIZE)"
  proof (intro allI impI ballI)
    fix i x assume i: "i < NCPU K" and x: "x \<in> set (?ls1 ! i)"
    have "x = p \<or> x \<in> set (ls ! i)"
      using x i len by (cases "i = cpu") (simp_all add: nth_list_update)
    then show "unat x < unat (p + PGSIZE)"
    proof
      assume "x = p"
      then show ?thesis using up by simp
    next
      assume "x \<in> set (ls ! i)"
      then have "unat x < unat p" using Suc.prems(4) i by blast
      then show ?thesis using up by simp
    qed
  qed
  have b1: "unat (p + PGSIZE) + n * 4096 \<le> unat pa_end" using Suc.prems(5) up by simp
  have b2: "unat pa_end < unat (p + PGSIZE) + (n + 1) * 4096" using Suc.prems(6) up by simp
  obtain s' where s': "freerange_loop K cpu (p + PGSIZE) pa_end s1 = Some (Inr s')"
      "kmem_inv K s' (?ls1[cpu := rev (page_seq (p + PGSIZE) n) @ ?ls1 ! cpu])"
    using Suc.IH [OF s1(2) al ge below b1 b2] by blast
  have run: "freerange_loop K cpu p pa_end s = Some (Inr s')"
    using cond s1(1) s'(1) by (subst freerange_loop.simps) simp
  have "?ls1[cpu := rev (page_seq (p + PGSIZE) n) @ ?ls1 ! cpu]
      = ls[cpu := rev (page_seq p (Suc n)) @ ls ! cpu]"
    using cpu len by (simp add: page_seq_Suc)
  then show ?case using run s'(2) by auto
qed

lemma kinit_run:
  assumes ok: "kparams_ok K" and cpu: "cpu < NCPU K"
  shows "\<exists>s'. kinit K cpu (kboot K m) = Some (Inr s') \<and>
              kmem_inv K s' ((replicate (NCPU K) [])[cpu := rev (kinit_pages K)])"
proof -
  let ?p = "PGROUNDUP (kernel_end K)"
  let ?n = "(unat (PHYSTOP K) - unat ?p) div 4096"
  have e: "kernel_end K \<noteq> 0" and lo: "unat (kernel_end K) + 4095 \<le> unat (PHYSTOP K)"
    and top: "unat (PHYSTOP K) + 4096 < 2 ^ 64"
    using ok by (simp_all add: kparams_ok_def)
  have nw: "unat (kernel_end K) + 4095 < 2 ^ 64" using lo top by linarith
  have ple: "unat ?p \<le> unat (PHYSTOP K)" using PGROUNDUP_ge(2) [OF nw] lo by linarith
  have ge: "kernel_end K \<le> ?p" using PGROUNDUP_ge(1) [OF nw] by (simp add: word_le_nat_alt)
  have "(unat (PHYSTOP K) - unat ?p) div 4096 * 4096 + (unat (PHYSTOP K) - unat ?p) mod 4096
        = unat (PHYSTOP K) - unat ?p" by simp
  moreover have "(unat (PHYSTOP K) - unat ?p) mod 4096 < 4096" by simp
  ultimately have "?n * 4096 \<le> unat (PHYSTOP K) - unat ?p"
      "unat (PHYSTOP K) - unat ?p < ?n * 4096 + 4096"
    by linarith+
  then have b: "unat ?p + ?n * 4096 \<le> unat (PHYSTOP K)"
      "unat (PHYSTOP K) < unat ?p + (?n + 1) * 4096"
    using ple by simp_all
  have boot: "fold initlock [0..<NCPU K] (kboot K m) = kboot K m"
    by (rule fold_initlock_idem) (simp add: kboot_def)
  have below: "\<forall>i < NCPU K. \<forall>x \<in> set (replicate (NCPU K) [] ! i). unat x < unat ?p" by simp
  obtain s' where "freerange_loop K cpu ?p (PHYSTOP K) (kboot K m) = Some (Inr s')"
      "kmem_inv K s' ((replicate (NCPU K) [])[cpu := rev (page_seq ?p ?n) @ replicate (NCPU K) [] ! cpu])"
    using freerange_loop_run [OF e cpu top order_refl kboot_inv PGROUNDUP_aligned ge below b]
    by blast
  then show ?thesis using cpu boot by (simp add: kinit_def freerange_def kinit_pages_def)
qed

subsection \<open>What kinit leaves on the lists\<close>

lemma kmem_inv_chain:
  "kmem_inv K s ls \<Longrightarrow> i < NCPU K \<Longrightarrow> chain (mem s) (freelist (kmem_list s ! i)) (ls ! i)"
  unfolding kmem_inv_def by blast

lemma kmem_inv_valid:
  "kmem_inv K s ls \<Longrightarrow> i < NCPU K \<Longrightarrow> p \<in> set (ls ! i) \<Longrightarrow> valid_page K p"
  unfolding kmem_inv_def by blast

lemma unat_page_at:
  assumes "unat p + k * 4096 < 2 ^ 64"
  shows "unat (p + of_nat k * PGSIZE) = unat p + k * 4096"
proof -
  have k: "k < 2 ^ 64" "k * 4096 < 2 ^ 64" using assms by simp_all
  have "unat (of_nat k * PGSIZE :: u64) = k * 4096"
    using k by (simp add: unat_word_ariths unat_of_nat PGSIZE_def)
  then show ?thesis using assms by (simp add: unat_add_lem [THEN iffD1])
qed

lemma kinit_pages_set:
  assumes ok: "kparams_ok K"
  shows "set (kinit_pages K)
           = {p. page_aligned p \<and> kernel_end K \<le> p \<and> unat p + 4096 \<le> unat (PHYSTOP K)}"
proof -
  let ?p = "PGROUNDUP (kernel_end K)"
  let ?n = "(unat (PHYSTOP K) - unat ?p) div 4096"
  have lo: "unat (kernel_end K) + 4095 \<le> unat (PHYSTOP K)"
    and top: "unat (PHYSTOP K) + 4096 < 2 ^ 64"
    using ok by (simp_all add: kparams_ok_def)
  have nw: "unat (kernel_end K) + 4095 < 2 ^ 64" using lo top by linarith
  have ple: "unat ?p \<le> unat (PHYSTOP K)" using PGROUNDUP_ge(2) [OF nw] lo by linarith
  have pge: "unat (kernel_end K) \<le> unat ?p" using PGROUNDUP_ge(1) [OF nw] .
  have pal: "unat ?p mod 4096 = 0" using PGROUNDUP_aligned by (simp add: page_aligned_unat)
  have n: "?n * 4096 \<le> unat (PHYSTOP K) - unat ?p" by simp
  have inside: "unat ?p + k * 4096 + 4096 \<le> unat (PHYSTOP K)" if "k < ?n" for k
  proof -
    have "(k + 1) * 4096 \<le> ?n * 4096" using that by (intro mult_le_mono1) simp
    then show ?thesis using n ple by simp
  qed
  show ?thesis
  proof (intro set_eqI iffI)
    fix x assume "x \<in> set (kinit_pages K)"
    then obtain k where k: "k < ?n" "x = ?p + of_nat k * PGSIZE"
      by (auto simp: kinit_pages_def page_seq_def)
    have u: "unat x = unat ?p + k * 4096"
      using inside [OF k(1)] top k(2) by (simp add: unat_page_at)
    have "unat x mod 4096 = 0" using u pal by simp
    moreover have "unat (kernel_end K) \<le> unat x" using u pge by simp
    moreover have "unat x + 4096 \<le> unat (PHYSTOP K)" using u inside [OF k(1)] by simp
    ultimately show "x \<in> {p. page_aligned p \<and> kernel_end K \<le> p \<and> unat p + 4096 \<le> unat (PHYSTOP K)}"
      by (simp add: page_aligned_unat word_le_nat_alt)
  next
    fix x assume "x \<in> {p. page_aligned p \<and> kernel_end K \<le> p \<and> unat p + 4096 \<le> unat (PHYSTOP K)}"
    then have x: "page_aligned x" "kernel_end K \<le> x" "unat x + 4096 \<le> unat (PHYSTOP K)"
      by simp_all
    have xm: "unat x mod 4096 = 0" using x(1) by (simp add: page_aligned_unat)
    have le: "unat ?p \<le> unat x" using PGROUNDUP_least [OF nw x(1) x(2)] .
    let ?k = "(unat x - unat ?p) div 4096"
    have "(unat x - unat ?p) mod 4096 = 0"
      using xm pal le by (simp add: mod_eq_0_iff_dvd dvd_diff_nat)
    then have d: "unat x - unat ?p = ?k * 4096" by (simp add: mod_eq_0_iff_dvd)
    then have ux: "unat x = unat ?p + ?k * 4096" using le by linarith
    have "(?k + 1) * 4096 \<le> unat (PHYSTOP K) - unat ?p" using ux x(3) by simp
    then have "?k + 1 \<le> ?n" by (simp add: less_eq_div_iff_mult_less_eq)
    then have kn: "?k < ?n" by simp
    have "unat (?p + of_nat ?k * PGSIZE) = unat ?p + ?k * 4096"
      using inside [OF kn] top by (simp add: unat_page_at)
    then have "x = ?p + of_nat ?k * PGSIZE" using ux by (simp add: word_unat_eq_iff)
    moreover have "?k \<in> set [0..<?n]" using kn by simp
    ultimately have "x \<in> (\<lambda>k. ?p + of_nat k * PGSIZE) ` set [0..<?n]" by (rule image_eqI)
    then show "x \<in> set (kinit_pages K)"
      unfolding kinit_pages_def page_seq_def by (simp only: set_map)
  qed
qed


text \<open>
  Claim C1, as the code has it. For sane constants, \<^verbatim>\<open>kinit\<close> run by core \<open>cpu\<close> on the
  boot state returns without a panic. Afterwards the calling core's free list holds
  every page-aligned page that lies completely between \<^verbatim>\<open>end\<close> and \<^verbatim>\<open>PHYSTOP\<close>, each
  once (the invariant includes that the list has no repetition), and the free list of
  every other core is empty: \<^verbatim>\<open>kfree\<close> pushes on the list of the core that runs it, and
  one core runs \<^verbatim>\<open>kinit\<close>.
\<close>

theorem kinit_spec:
  assumes ok: "kparams_ok K" and cpu: "cpu < NCPU K"
  shows "\<exists>s'. kinit K cpu (kboot K m) = Some (Inr s') \<and>
           kmem_inv K s' ((replicate (NCPU K) [])[cpu := rev (kinit_pages K)]) \<and>
           (\<forall>i < NCPU K. i \<noteq> cpu \<longrightarrow> freelist (kmem_list s' ! i) = 0) \<and>
           set (kinit_pages K)
             = {p. page_aligned p \<and> kernel_end K \<le> p \<and> unat p + 4096 \<le> unat (PHYSTOP K)}"
proof -
  let ?ls = "(replicate (NCPU K) [])[cpu := rev (kinit_pages K)]"
  obtain s' where s': "kinit K cpu (kboot K m) = Some (Inr s')" "kmem_inv K s' ?ls"
    using kinit_run [OF ok cpu] by blast
  have "freelist (kmem_list s' ! i) = 0" if "i < NCPU K" "i \<noteq> cpu" for i
  proof -
    have "chain (mem s') (freelist (kmem_list s' ! i)) (?ls ! i)"
      using s'(2) that(1) by (rule kmem_inv_chain)
    moreover have "?ls ! i = []" using that by simp
    ultimately show ?thesis by simp
  qed
  then show ?thesis using s' kinit_pages_set [OF ok] by blast
qed

lemma K_small_ok: "kparams_ok K_small"
  by (simp add: kparams_ok_def K_small_def)

lemma PGROUNDUP_small: "PGROUNDUP 0x1000 = 0x1000"
  by (simp add: PGROUNDUP_def PGSIZE_def)

lemma kinit_pages_small: "kinit_pages K_small = [0x1000, 0x2000, 0x3000]"
  by (simp add: kinit_pages_def K_small_def PGROUNDUP_small page_seq_def PGSIZE_def upt_rec)

lemma s_small_init_inv: "kmem_inv K_small s_small_init [[0x3000, 0x2000, 0x1000], []]"
proof -
  obtain s' where s': "kinit K_small 0 (kboot K_small mem0) = Some (Inr s')"
      "kmem_inv K_small s' ((replicate (NCPU K_small) [])[0 := rev (kinit_pages K_small)])"
    using kinit_run [OF K_small_ok, of 0 mem0] by (auto simp: K_small_def)
  have "(replicate (NCPU K_small) [])[0 := rev (kinit_pages K_small)]
      = [[0x3000, 0x2000, 0x1000], []]"
    by (simp add: kinit_pages_small) (simp add: K_small_def numeral_2_eq_2)
  then show ?thesis using s' by (simp add: s_small_init_def)
qed

lemma kinit_small: "kinit K_small 0 (kboot K_small mem0) = Some (Inr s_small_init)"
proof -
  obtain s' where "kinit K_small 0 (kboot K_small mem0) = Some (Inr s')"
    using kinit_run [OF K_small_ok, of 0 mem0] by (auto simp: K_small_def)
  then show ?thesis by (simp add: s_small_init_def)
qed

theorem kinit_spec_witness:
  "kparams_ok K_small \<and> (0::nat) < NCPU K_small \<and>
   kinit K_small 0 (kboot K_small mem0) = Some (Inr s_small_init) \<and>
   kmem_inv K_small s_small_init [[0x3000, 0x2000, 0x1000], []] \<and>
   freelist (kmem_list s_small_init ! 1) = 0"
proof -
  have c: "(0::nat) < NCPU K_small" by (simp add: K_small_def)
  have "\<forall>i < NCPU K_small. i \<noteq> 0 \<longrightarrow> freelist (kmem_list s_small_init ! i) = 0"
    using kinit_spec [OF K_small_ok c, of mem0] kinit_small by auto
  moreover have "(1::nat) < NCPU K_small" by (simp add: K_small_def)
  ultimately have "freelist (kmem_list s_small_init ! 1) = 0" by simp
  then show ?thesis
    by (intro conjI K_small_ok c kinit_small s_small_init_inv)
qed

text \<open>
  The claim as the spec words it fails: after initialisation by core 0 on the small
  configuration, with three pages to hand out, the list of core 1 is empty.
\<close>

theorem kinit_distribution_counterexample:
  "kinit_heads K_small 0 mem0 = Some [0x3000, 0]"
proof -
  have "length (kmem_list s_small_init) = Suc (Suc 0)"
    using s_small_init_inv by (simp add: kmem_inv_def K_small_def)
  then obtain a b where ab: "kmem_list s_small_init = [a, b]"
    by (auto simp: length_Suc_conv)
  have "chain (mem s_small_init) (freelist (kmem_list s_small_init ! 0)) ([[0x3000, 0x2000, 0x1000], []] ! 0)"
    by (rule kmem_inv_chain [OF s_small_init_inv]) (simp add: K_small_def)
  then have a: "freelist a = 0x3000" using ab by simp
  have "chain (mem s_small_init) (freelist (kmem_list s_small_init ! 1)) ([[0x3000, 0x2000, 0x1000], []] ! 1)"
    by (rule kmem_inv_chain [OF s_small_init_inv]) (simp add: K_small_def)
  then have b: "freelist b = 0" using ab by simp
  have "kmem_heads s_small_init = [0x3000, 0]"
    using ab a b by (simp add: kmem_heads_def)
  then show ?thesis by (simp add: kinit_heads_def kinit_small)
qed

subsection \<open>Reachable states are well formed\<close>

lemma store_inv:
  assumes inv: "kmem_inv K s ls" and out: "\<forall>p \<in> kfree_pages s. \<not> a - p < PGSIZE"
  shows "kmem_inv K (s\<lparr>mem := (mem s)(a := v)\<rparr>) ls"
proof -
  have same: "load64 ((mem s)(a := v)) x = load64 (mem s) x" if "i < NCPU K" "x \<in> set (ls ! i)" for i x
  proof -
    have "x \<in> kfree_pages s" using that kfree_pages_inv [OF inv] by auto
    then show ?thesis using out by (simp add: load64_upd_other)
  qed
  have "chain ((mem s)(a := v)) h (ls ! i) = chain (mem s) h (ls ! i)" if "i < NCPU K" for i h
    by (rule chain_cong) (rule same [OF that])
  then show ?thesis using inv by (simp add: kmem_inv_def)
qed

lemma kreach_inv:
  assumes ok: "kparams_ok K"
  shows "kreach K s \<Longrightarrow> \<exists>ls. kmem_inv K s ls"
proof (induction rule: kreach.induct)
  case (kreach_init cpu m s)
  then show ?case using kinit_run [OF ok, of cpu m] by auto
next
  case (kreach_free s cpu pa s')
  then obtain ls where inv: "kmem_inv K s ls" by blast
  have v: "valid_page K pa"
    using kreach_free.hyps(4) kfree_invalid [of K pa cpu s] by auto
  have fresh: "\<forall>i < NCPU K. pa \<notin> set (ls ! i)"
    using kreach_free.hyps(3) kfree_pages_inv [OF inv] by auto
  have e: "kernel_end K \<noteq> 0" using ok by (simp add: kparams_ok_def)
  show ?case
    using kfree_inv [OF inv kreach_free.hyps(2) v fresh e] kreach_free.hyps(4) by auto
next
  case (kreach_alloc s cpu r s')
  then obtain ls where inv: "kmem_inv K s ls" by blast
  show ?case
  proof (cases "kalloc_from K cpu ls")
    case None
    then have "s' = s"
      using kalloc_spec [OF inv kreach_alloc.hyps(2)] kreach_alloc.hyps(3) by simp
    then show ?thesis using inv by blast
  next
    case (Some j)
    then have "kmem_inv K s' (ls[j := tl (ls ! j)])"
      using kalloc_spec [OF inv kreach_alloc.hyps(2)] kreach_alloc.hyps(3) by simp
    then show ?thesis by blast
  qed
next
  case (kreach_store s a v)
  then obtain ls where "kmem_inv K s ls" by blast
  then show ?case using store_inv kreach_store.hyps(2) by blast
qed

text \<open>
  Claim C8, as the code has it. In every state reached from the boot state by \<^verbatim>\<open>kinit\<close>,
  by \<^verbatim>\<open>kalloc\<close>, by \<^verbatim>\<open>kfree\<close> of pages that are not on a free list when they are freed,
  and by stores outside the free pages, every non-null result of \<^verbatim>\<open>kalloc\<close> is
  page-aligned and lies in \<open>[end, PHYSTOP)\<close>.
\<close>

theorem kalloc_in_range:
  assumes ok: "kparams_ok K" and reach: "kreach K s" and cpu: "cpu < NCPU K"
    and run: "kalloc K cpu s = (r, s')" and nz: "r \<noteq> 0"
  shows "page_aligned r \<and> kernel_end K \<le> r \<and> r < PHYSTOP K"
proof -
  obtain ls where inv: "kmem_inv K s ls" using kreach_inv [OF ok reach] by blast
  show ?thesis
  proof (cases "kalloc_from K cpu ls")
    case None
    then show ?thesis using kalloc_spec [OF inv cpu] run nz by simp
  next
    case (Some j)
    then have j: "j < NCPU K" "ls ! j \<noteq> []" "r = hd (ls ! j)"
      using kalloc_spec [OF inv cpu] run by simp_all
    then have "r \<in> set (ls ! j)" by simp
    then have "valid_page K r" using kmem_inv_valid [OF inv j(1)] by simp
    then show ?thesis by (simp add: valid_page_def)
  qed
qed

theorem kalloc_in_range_witness:
  "kparams_ok K_small \<and> kreach K_small s_small_init \<and> (0::nat) < NCPU K_small \<and>
   fst (kalloc K_small 0 s_small_init) = 0x3000 \<and>
   page_aligned 0x3000 \<and> kernel_end K_small \<le> 0x3000 \<and> 0x3000 < PHYSTOP K_small"
proof -
  have c: "(0::nat) < NCPU K_small" by (simp add: K_small_def)
  have reach: "kreach K_small s_small_init" using c kinit_small by (rule kreach_init)
  have f: "kalloc_from K_small 0 [[0x3000, 0x2000, 0x1000], []] = Some 0"
    by (simp add: kalloc_from_def)
  have r: "fst (kalloc K_small 0 s_small_init) = 0x3000"
    using kalloc_spec [OF s_small_init_inv c] f by simp
  have eq: "kalloc K_small 0 s_small_init = (0x3000, snd (kalloc K_small 0 s_small_init))"
    using r by (simp add: prod_eq_iff)
  have "page_aligned 0x3000 \<and> kernel_end K_small \<le> 0x3000 \<and> 0x3000 < PHYSTOP K_small"
    using kalloc_in_range [OF K_small_ok reach c eq] by simp
  then show ?thesis using K_small_ok reach c r by simp
qed

subsection \<open>A page freed twice\<close>

lemma kalloc_small_shape:
  assumes "h \<noteq> 0" and "kmem_list s = [\<lparr>lock = False, freelist = h\<rparr>, k1]"
  shows "kalloc K_small 0 s =
           (h, \<lparr>mem = memset (mem s) h 5 PGSIZE,
                kmem_list = [\<lparr>lock = False, freelist = load64 (mem s) h\<rparr>, k1]\<rparr>)"
  using assms
  by (simp add: kalloc_def Let_def acquire_def release_def set_freelist_def kstate_updated)

lemma kfree_small_shape:
  assumes "valid_page K_small pa" and "kmem_list s = [k0, k1]"
  shows "kfree K_small 0 pa s =
           Inr \<lparr>mem = store64 (memset (mem s) pa 1 PGSIZE) pa (freelist k0),
                kmem_list = [\<lparr>lock = False, freelist = pa\<rparr>, k1]\<rparr>"
  using assms kfree_valid [of K_small pa 0 s] by simp

lemma s_small_init_list:
  "\<exists>k1. kmem_list s_small_init = [\<lparr>lock = False, freelist = 0x3000\<rparr>, k1]"
proof -
  have "length (kmem_list s_small_init) = Suc (Suc 0)"
    using s_small_init_inv by (simp add: kmem_inv_def K_small_def)
  then obtain a b where ab: "kmem_list s_small_init = [a, b]"
    by (auto simp: length_Suc_conv)
  have "chain (mem s_small_init) (freelist (kmem_list s_small_init ! 0)) ([[0x3000, 0x2000, 0x1000], []] ! 0)"
    by (rule kmem_inv_chain [OF s_small_init_inv]) (simp add: K_small_def)
  then have "freelist a = 0x3000" using ab by simp
  moreover have "\<not> lock (kmem_list s_small_init ! 0)"
    using s_small_init_inv by (simp add: kmem_inv_def K_small_def)
  then have "\<not> lock a" using ab by simp
  ultimately have "a = \<lparr>lock = False, freelist = 0x3000\<rparr>" by (cases a) simp
  then show ?thesis using ab by simp
qed

text \<open>
  The claim as the spec words it fails on a run that frees a page twice: pages enter the
  lists through \<^verbatim>\<open>kinit\<close> and \<^verbatim>\<open>kfree\<close> only, and yet the last \<^verbatim>\<open>kalloc\<close> returns 0x3008,
  which is not page-aligned. (The second \<^verbatim>\<open>kfree\<close> makes the page its own successor, so
  the page is handed out twice and the word its owner stores there becomes a list head.)
\<close>

theorem kalloc_double_free_counterexample:
  "double_free_run = Some [0x3000, 0x3000, 0x3000, 0x3008] \<and> \<not> page_aligned 0x3008"
proof -
  obtain k1 where l0: "kmem_list s_small_init = [\<lparr>lock = False, freelist = 0x3000\<rparr>, k1]"
    using s_small_init_list by blast
  have v: "valid_page K_small 0x3000"
    by (simp add: valid_page_def page_aligned_def K_small_def PGSIZE_def)
  have na: "\<not> page_aligned 0x3008" by (simp add: page_aligned_def PGSIZE_def)
  define s1 where "s1 = \<lparr>mem = memset (mem s_small_init) 0x3000 5 PGSIZE,
    kmem_list = [\<lparr>lock = False, freelist = load64 (mem s_small_init) 0x3000\<rparr>, k1]\<rparr>"
  define s2 where "s2 = \<lparr>mem = store64 (memset (mem s1) 0x3000 1 PGSIZE) 0x3000
      (load64 (mem s_small_init) 0x3000),
    kmem_list = [\<lparr>lock = False, freelist = 0x3000\<rparr>, k1]\<rparr>"
  define s3 where "s3 = \<lparr>mem = store64 (memset (mem s2) 0x3000 1 PGSIZE) 0x3000 0x3000,
    kmem_list = [\<lparr>lock = False, freelist = 0x3000\<rparr>, k1]\<rparr>"
  define s4 where "s4 = \<lparr>mem = memset (mem s3) 0x3000 5 PGSIZE,
    kmem_list = [\<lparr>lock = False, freelist = 0x3000\<rparr>, k1]\<rparr>"
  define s5 where "s5 = s4\<lparr>mem := store64 (mem s4) 0x3000 0x3008\<rparr>"
  define s6 where "s6 = \<lparr>mem = memset (mem s5) 0x3000 5 PGSIZE,
    kmem_list = [\<lparr>lock = False, freelist = 0x3008\<rparr>, k1]\<rparr>"
  define s7 where "s7 = \<lparr>mem = memset (mem s6) 0x3008 5 PGSIZE,
    kmem_list = [\<lparr>lock = False, freelist = load64 (mem s6) 0x3008\<rparr>, k1]\<rparr>"
  have e1: "kalloc K_small 0 s_small_init = (0x3000, s1)"
    using kalloc_small_shape [OF _ l0] by (simp add: s1_def)
  have e2: "kfree K_small 0 0x3000 s1 = Inr s2"
    using kfree_small_shape [OF v, of s1] by (simp add: s1_def s2_def)
  have e3: "kfree K_small 0 0x3000 s2 = Inr s3"
    using kfree_small_shape [OF v, of s2] by (simp add: s2_def s3_def)
  have "load64 (mem s3) 0x3000 = 0x3000" by (simp add: s3_def load64_store64)
  then have e4: "kalloc K_small 0 s3 = (0x3000, s4)"
    using kalloc_small_shape [of "0x3000" s3 k1] by (simp add: s3_def s4_def)
  have l5: "kmem_list s5 = [\<lparr>lock = False, freelist = 0x3000\<rparr>, k1]"
    by (simp add: s5_def s4_def)
  have "load64 (mem s5) 0x3000 = 0x3008" by (simp add: s5_def load64_store64)
  then have e5: "kalloc K_small 0 s5 = (0x3000, s6)"
    using kalloc_small_shape [OF _ l5] by (simp add: s6_def)
  have e6: "kalloc K_small 0 s6 = (0x3008, s7)"
    using kalloc_small_shape [of "0x3008" s6 k1] by (simp add: s6_def s7_def)
  have "double_free_run = Some [0x3000, 0x3000, 0x3000, 0x3008]"
    unfolding double_free_run_def
    by (simp add: kinit_small e1 e2 e3 e4 s5_def [symmetric] e5 e6)
  then show ?thesis using na by simp
qed

subsection \<open>kfree on small states\<close>

lemma s_small2_inv: "kmem_inv K_small s_small2 [[], [0x2000, 0x3000]]"
proof -
  have b: "kmem_inv K_small (kboot K_small mem0) [[], []]"
    using kboot_inv [of K_small mem0] by (simp add: K_small_def numeral_2_eq_2)
  have c: "(1::nat) < NCPU K_small" and e: "kernel_end K_small \<noteq> 0"
    by (simp_all add: K_small_def)
  have v: "valid_page K_small 0x3000" "valid_page K_small 0x2000"
    by (simp_all add: valid_page_def page_aligned_def K_small_def PGSIZE_def)
  have f1: "\<forall>i < NCPU K_small. (0x3000::u64) \<notin> set ([[], []] ! i)"
    by (auto simp: K_small_def less_Suc_eq numeral_2_eq_2)
  obtain s1 where s1: "kfree K_small 1 0x3000 (kboot K_small mem0) = Inr s1"
      "kmem_inv K_small s1 ([[], []][1 := 0x3000 # [[], []] ! 1])"
    using kfree_inv [OF b c v(1) f1 e] by blast
  then have i1: "kmem_inv K_small s1 [[], [0x3000]]" by simp
  have f2: "\<forall>i < NCPU K_small. (0x2000::u64) \<notin> set ([[], [0x3000]] ! i)"
  proof (intro allI impI)
    fix i assume "i < NCPU K_small"
    then have "i = 0 \<or> i = 1" by (auto simp: K_small_def)
    then show "(0x2000::u64) \<notin> set ([[], [0x3000]] ! i)" by auto
  qed
  obtain s2 where s2: "kfree K_small 1 0x2000 s1 = Inr s2"
      "kmem_inv K_small s2 ([[], [0x3000]][1 := 0x2000 # [[], [0x3000]] ! 1])"
    using kfree_inv [OF i1 c v(2) f2 e] by blast
  then have "kmem_inv K_small s2 [[], [0x2000, 0x3000]]" by simp
  then show ?thesis using s1(1) s2(1) by (simp add: s_small2_def)
qed

lemma s_small2_list:
  "\<exists>k0. kmem_list s_small2 = [k0, \<lparr>lock = False, freelist = 0x2000\<rparr>] \<and> freelist k0 = 0"
proof -
  have "length (kmem_list s_small2) = Suc (Suc 0)"
    using s_small2_inv by (simp add: kmem_inv_def K_small_def)
  then obtain a b where ab: "kmem_list s_small2 = [a, b]"
    by (auto simp: length_Suc_conv)
  have "chain (mem s_small2) (freelist (kmem_list s_small2 ! 0)) ([[], [0x2000, 0x3000]] ! 0)"
    by (rule kmem_inv_chain [OF s_small2_inv]) (simp add: K_small_def)
  then have a: "freelist a = 0" using ab by simp
  have "chain (mem s_small2) (freelist (kmem_list s_small2 ! 1)) ([[], [0x2000, 0x3000]] ! 1)"
    by (rule kmem_inv_chain [OF s_small2_inv]) (simp add: K_small_def)
  then have "freelist b = 0x2000" using ab by simp
  moreover have "\<not> lock (kmem_list s_small2 ! 1)"
    using s_small2_inv by (simp add: kmem_inv_def K_small_def)
  then have "\<not> lock b" using ab by simp
  ultimately have "b = \<lparr>lock = False, freelist = 0x2000\<rparr>" by (cases b) simp
  then show ?thesis using ab a by simp
qed

theorem kfree_spec_witness:
  "(0::nat) < length (kmem_list s_small1) \<and>
   \<not> valid_page K_small 0x2008 \<and>
   kfree K_small 0 0x2008 s_small1 = Inl (Panic ''kfree'') \<and>
   valid_page K_small 0x3000 \<and> kernel_end K_small \<noteq> 0 \<and>
   kmem_inv K_small s_small1 [[], [0x2000]] \<and>
   0x3000 \<notin> kfree_pages s_small1 \<and>
   (\<exists>s'. kfree K_small 0 0x3000 s_small1 = Inr s' \<and>
      mem s' 0x3008 = 1 \<and> mem s' 0x3FFF = 1 \<and>
      load64 (mem s') 0x3000 = 0 \<and>
      freelist (kmem_list s' ! 0) = 0x3000 \<and>
      kmem_list s' ! 1 = kmem_list s_small1 ! 1 \<and>
      kmem_inv K_small s' [[0x3000], [0x2000]])"
proof -
  let ?s = s_small1
  have len2: "length (kmem_list ?s) = 2"
    using s_small1_inv by (simp add: kmem_inv_def K_small_def)
  then have len: "(0::nat) < length (kmem_list ?s)" by simp
  have h0: "freelist (kmem_list ?s ! 0) = 0"
    using kmem_inv_chain [OF s_small1_inv, of 0] by (simp add: K_small_def)
  have kp: "kfree_pages ?s = {0x2000}"
    using kfree_pages_inv [OF s_small1_inv] by (simp add: K_small_def lessThan_Suc numeral_2_eq_2)
  have fresh: "0x3000 \<notin> kfree_pages ?s" unfolding kp by simp
  have e: "kernel_end K_small \<noteq> 0" by (simp add: K_small_def)
  have v: "valid_page K_small 0x3000"
    by (simp add: valid_page_def page_aligned_def K_small_def PGSIZE_def)
  have bad: "kfree K_small 0 0x2008 ?s = Inl (Panic ''kfree'')"
    using kfree_spec [OF len, of K_small "0x2008"] valid_page_small(2) by simp
  from kfree_spec [OF len, of K_small "0x3000"] v
  obtain s' where s': "kfree K_small 0 0x3000 ?s = Inr s'"
      "\<forall>a. a - 0x3000 < PGSIZE \<and> \<not> a - 0x3000 < 8 \<longrightarrow> mem s' a = 1"
      "load64 (mem s') 0x3000 = freelist (kmem_list ?s ! 0)"
      "kmem_list s' = (kmem_list ?s)[0 := \<lparr>lock = False, freelist = 0x3000\<rparr>]"
      "\<forall>ls. kernel_end K_small \<noteq> 0 \<and> kmem_inv K_small ?s ls \<and> 0x3000 \<notin> kfree_pages ?s \<longrightarrow>
            kmem_inv K_small s' (ls[0 := 0x3000 # ls ! 0])"
    by blast
  have "mem s' 0x3008 = 1" "mem s' 0x3FFF = 1" using s'(2) by (simp_all add: PGSIZE_def)
  moreover have "load64 (mem s') 0x3000 = 0" using s'(3) h0 by simp
  moreover have "freelist (kmem_list s' ! 0) = 0x3000" "kmem_list s' ! 1 = kmem_list ?s ! 1"
    using s'(4) len2 by simp_all
  moreover have "kmem_inv K_small s' ([[], [0x2000]][0 := 0x3000 # [[], [0x2000]] ! 0])"
    using s'(5) e s_small1_inv fresh by blast
  then have "kmem_inv K_small s' [[0x3000], [0x2000]]" by simp
  ultimately show ?thesis
    using len bad valid_page_small(2) v e s_small1_inv fresh s'(1) by blast
qed

text \<open>
  The claim as the spec words it (for every pointer) fails for a page that is on another
  core's list when it is freed. Core 1's list holds the pages 0x2000 and 0x3000; core 0
  frees 0x2000. The call returns, core 1's head pointer is unchanged, but the link in the
  page now is core 0's old head, so core 1's list has lost the page 0x3000: the list of a
  core other than the calling one has changed.
\<close>

theorem kfree_other_list_counterexample:
  "chain (mem s_small2) (freelist (kmem_list s_small2 ! 1)) [0x2000, 0x3000] \<and>
   kfree K_small 0 0x2000 s_small2 = Inr s_small3 \<and>
   chain (mem s_small3) (freelist (kmem_list s_small3 ! 1)) [0x2000] \<and>
   \<not> chain (mem s_small3) (freelist (kmem_list s_small3 ! 1)) [0x2000, 0x3000]"
proof -
  obtain k0 where l: "kmem_list s_small2 = [k0, \<lparr>lock = False, freelist = 0x2000\<rparr>]"
      and k0: "freelist k0 = 0"
    using s_small2_list by blast
  have c1: "chain (mem s_small2) (freelist (kmem_list s_small2 ! 1)) [0x2000, 0x3000]"
    using kmem_inv_chain [OF s_small2_inv, of 1] by (simp add: K_small_def)
  have v: "valid_page K_small 0x2000"
    by (simp add: valid_page_def page_aligned_def K_small_def PGSIZE_def)
  define s3 where "s3 = \<lparr>mem = store64 (memset (mem s_small2) 0x2000 1 PGSIZE) 0x2000 0,
    kmem_list = [\<lparr>lock = False, freelist = 0x2000\<rparr>, \<lparr>lock = False, freelist = 0x2000\<rparr>]\<rparr>"
  have run: "kfree K_small 0 0x2000 s_small2 = Inr s3"
    using kfree_small_shape [OF v l] k0 by (simp add: s3_def)
  then have eq: "s_small3 = s3" by (simp add: s_small3_def)
  have c3: "chain (mem s3) (freelist (kmem_list s3 ! 1)) [0x2000]"
    by (simp add: s3_def load64_store64)
  have c4: "\<not> chain (mem s3) (freelist (kmem_list s3 ! 1)) [0x2000, 0x3000]"
  proof
    assume "chain (mem s3) (freelist (kmem_list s3 ! 1)) [0x2000, 0x3000]"
    then have "[0x2000] = [0x2000, 0x3000 :: u64]" by (rule chain_unique [OF c3])
    then show False by simp
  qed
  show ?thesis unfolding eq using c1 run c3 c4 by (intro conjI)
qed

section \<open>Buffer cache: proofs\<close>

subsection \<open>Field assignments\<close>

lemma bufs_upd: "bufs (upd r g s) x = (if x = r then g (bufs s r) else bufs s x)"
  by (simp add: upd_def)

lemma upd_others [simp]:
  "spin (upd r g s) = spin s" "disk (upd r g s) = disk s" "iolog (upd r g s) = iolog s"
  by (simp_all add: upd_def)

lemma bucket_others [simp]:
  "bufs (acquire_bucket i s) = bufs s" "disk (acquire_bucket i s) = disk s"
  "iolog (acquire_bucket i s) = iolog s"
  "bufs (release_bucket i s) = bufs s" "disk (release_bucket i s) = disk s"
  "iolog (release_bucket i s) = iolog s"
  "spin (acquire_bucket i s) = (spin s)(i := True)"
  "spin (release_bucket i s) = (spin s)(i := False)"
  by (simp_all add: acquire_bucket_def release_bucket_def)

subsection \<open>bwrite and brelse need the lock\<close>

lemma lock_relink: "buf_lock (bufs (brelse_relink i b s) x) = buf_lock (bufs s x)"
  by (simp add: brelse_relink_def Let_def bufs_upd)

lemma lock_locked:
  "buf_lock (bufs (brelse_locked i b s) x) = buf_lock (bufs s x)"
  by (simp add: brelse_locked_def Let_def lock_relink bufs_upd)

lemma iolog_relink [simp]: "iolog (brelse_relink i b s) = iolog s"
  by (simp add: brelse_relink_def Let_def)

lemma iolog_locked [simp]: "iolog (brelse_locked i b s) = iolog s"
  by (simp add: brelse_locked_def Let_def)

text \<open>
  Claim C4. \<^verbatim>\<open>bwrite\<close> and \<^verbatim>\<open>brelse\<close> panic when the caller does not hold the slot's
  exclusive lock. When it holds the lock neither panics: \<^verbatim>\<open>bwrite\<close> performs exactly one
  storage operation, a write of the payload to the slot's block, and changes no buffer;
  \<^verbatim>\<open>brelse\<close> performs no storage operation and leaves the slot's lock free.
\<close>

theorem bwrite_brelse_lock:
  "(\<not> holdingsleep pid (bufs s b) \<longrightarrow>
      bwrite pid b s = Inl (Panic ''bwrite'') \<and> brelse pid b s = Inl (Panic ''brelse'')) \<and>
   (holdingsleep pid (bufs s b) \<longrightarrow>
      (\<exists>s'. bwrite pid b s = Inr s' \<and>
            iolog s' = iolog s @ [DiskWrite (dev (bufs s b)) (blockno (bufs s b))] \<and>
            disk s' (dev (bufs s b), blockno (bufs s b)) = data (bufs s b) \<and>
            bufs s' = bufs s) \<and>
      (\<exists>s'. brelse pid b s = Inr s' \<and> buf_lock (bufs s' b) = None \<and> iolog s' = iolog s))"
  by (simp add: bwrite_def brelse_def virtio_disk_rw_def Let_def lock_locked releasesleep_def
      bufs_upd)

lemma boot_fields:
  "buf_lock (bufs b_boot r) = None" "refcnt (bufs b_boot r) = 0" "iolog b_boot = []"
  by (simp_all add: b_boot_def bboot_def)

theorem bwrite_brelse_lock_witness:
  "\<not> holdingsleep 1 (bufs b_boot (Buf 0 0)) \<and>
   bwrite 1 (Buf 0 0) b_boot = Inl (Panic ''bwrite'') \<and>
   brelse 1 (Buf 0 0) b_boot = Inl (Panic ''brelse'') \<and>
   holdingsleep 1 (bufs (upd (Buf 0 0) (buf_lock_update (\<lambda>_. Some 1)) b_boot) (Buf 0 0)) \<and>
   (\<exists>s'. bwrite 1 (Buf 0 0) (upd (Buf 0 0) (buf_lock_update (\<lambda>_. Some 1)) b_boot) = Inr s' \<and>
         iolog s' = [DiskWrite 0 0]) \<and>
   (\<exists>s'. brelse 1 (Buf 0 0) (upd (Buf 0 0) (buf_lock_update (\<lambda>_. Some 1)) b_boot) = Inr s' \<and>
         buf_lock (bufs s' (Buf 0 0)) = None)"
proof -
  let ?s = "upd (Buf 0 0) (buf_lock_update (\<lambda>_. Some 1)) b_boot"
  have n: "\<not> holdingsleep 1 (bufs b_boot (Buf 0 0))"
    by (simp add: holdingsleep_def boot_fields)
  have h: "holdingsleep 1 (bufs ?s (Buf 0 0))"
    by (simp add: holdingsleep_def bufs_upd)
  have f: "dev (bufs ?s (Buf 0 0)) = 0" "blockno (bufs ?s (Buf 0 0)) = 0" "iolog ?s = []"
    by (simp_all add: bufs_upd b_boot_def bboot_def)
  show ?thesis
    using bwrite_brelse_lock [of 1 b_boot "Buf 0 0"] bwrite_brelse_lock [of 1 ?s "Buf 0 0"] n h f
    by auto
qed

subsection \<open>bunpin\<close>

lemma bget_recycle_refcnt:
  assumes "bget_recycle s h x = Some (Some b)"
  shows "refcnt (bufs s b) = 0"
proof -
  define P where "P = (\<lambda>(s :: bcache) (h :: bref) (x :: bref) (y :: bref option).
     \<forall>c. y = Some c \<longrightarrow> refcnt (bufs s c) = 0)"
  have step: "P s1 h1 x1 y1"
    if ih: "\<And>s h x y. f s h x = Some y \<Longrightarrow> P s h x y"
      and eq: "(if x1 = h1 then Some None
                else if refcnt (bufs s1 x1) = 0 then Some (Some x1)
                else f s1 h1 (prev (bufs s1 x1))) = Some y1"
    for f s1 h1 x1 y1
  proof (cases "x1 = h1")
    case True
    then have "y1 = None" using eq by simp
    then show ?thesis by (simp add: P_def)
  next
    case False
    show ?thesis
    proof (cases "refcnt (bufs s1 x1) = 0")
      case True
      then have "y1 = Some x1" using eq False by simp
      then show ?thesis using True by (simp add: P_def)
    next
      case nz: False
      then have "f s1 h1 (prev (bufs s1 x1)) = Some y1" using eq False by simp
      then have "P s1 h1 (prev (bufs s1 x1)) y1" by (rule ih)
      then show ?thesis by (simp add: P_def)
    qed
  qed
  have "P s h x (Some b)"
    by (rule bget_recycle.raw_induct [of P, OF step assms])
  then show ?thesis by (simp add: P_def)
qed

lemma bufs_bunpin:
  "bufs (bunpin b s) = (bufs s)(b := (bufs s b)\<lparr>refcnt := refcnt (bufs s b) - 1\<rparr>)"
proof -
  have e: "refcnt_update (\<lambda>c. c - 1) (bufs s b) = (bufs s b)\<lparr>refcnt := refcnt (bufs s b) - 1\<rparr>"
    by (cases "bufs s b") simp
  show ?thesis by (simp add: bunpin_def Let_def upd_def e)
qed

lemma bufs_bpin:
  "bufs (bpin b s) = (bufs s)(b := (bufs s b)\<lparr>refcnt := refcnt (bufs s b) + 1\<rparr>)"
proof -
  have e: "refcnt_update (\<lambda>c. c + 1) (bufs s b) = (bufs s b)\<lparr>refcnt := refcnt (bufs s b) + 1\<rparr>"
    by (cases "bufs s b") simp
  show ?thesis by (simp add: bpin_def Let_def upd_def e)
qed

text \<open>
  Claim C10, as the code has it. \<^verbatim>\<open>bunpin\<close> has no panic and no test: it subtracts one from
  \<^verbatim>\<open>refcnt\<close> in 32-bit unsigned arithmetic and changes no other field of any buffer. On
  a slot whose \<^verbatim>\<open>refcnt\<close> is 0 the counter becomes \<open>2^32 - 1\<close>, so right after the call the
  slot fails the test \<^verbatim>\<open>refcnt == 0\<close> of the recycling scan; one later increment (here
  \<^verbatim>\<open>bpin\<close>) makes the counter 0 again.
\<close>

theorem bunpin_wraps:
  "bufs (bunpin b s) = (bufs s)(b := (bufs s b)\<lparr>refcnt := refcnt (bufs s b) - 1\<rparr>) \<and>
   (refcnt (bufs s b) = 0 \<longrightarrow>
      unat (refcnt (bufs (bunpin b s) b)) = 2 ^ 32 - 1 \<and>
      (\<forall>h x. bget_recycle (bunpin b s) h x \<noteq> Some (Some b)) \<and>
      refcnt (bufs (bpin b (bunpin b s)) b) = 0)"
proof (intro conjI impI allI)
  show "bufs (bunpin b s) = (bufs s)(b := (bufs s b)\<lparr>refcnt := refcnt (bufs s b) - 1\<rparr>)"
    by (rule bufs_bunpin)
next
  fix h x
  assume z: "refcnt (bufs s b) = 0"
  then have r: "refcnt (bufs (bunpin b s) b) = - 1" by (simp add: bufs_bunpin)
  have m: "(- 1 :: u32) = 4294967295" by simp
  show "unat (refcnt (bufs (bunpin b s) b)) = 2 ^ 32 - 1" unfolding r m by simp
  show "refcnt (bufs (bpin b (bunpin b s)) b) = 0" using r by (simp add: bufs_bpin)
  have nz: "refcnt (bufs (bunpin b s) b) \<noteq> 0" using r by simp
  show "bget_recycle (bunpin b s) h x \<noteq> Some (Some b)"
    using bget_recycle_refcnt [of "bunpin b s" h x b] nz by blast
qed

theorem bunpin_wraps_witness:
  "refcnt (bufs b_boot (Buf 0 0)) = 0 \<and>
   unat (refcnt (bufs (bunpin (Buf 0 0) b_boot) (Buf 0 0))) = 2 ^ 32 - 1 \<and>
   bget_recycle (bunpin (Buf 0 0) b_boot) (Head 0) (Buf 0 0) \<noteq> Some (Some (Buf 0 0)) \<and>
   refcnt (bufs (bpin (Buf 0 0) (bunpin (Buf 0 0) b_boot)) (Buf 0 0)) = 0"
  using bunpin_wraps [of "Buf 0 0" b_boot] boot_fields(2) [of "Buf 0 0"] by blast

text \<open>
  The claim as the spec words it fails in its parenthesis: the slot does satisfy the test
  \<^verbatim>\<open>refcnt == 0\<close> again, as soon as the wrapped counter is incremented once.
\<close>

theorem bunpin_never_again_counterexample:
  "refcnt (bufs b_boot (Buf 0 0)) = 0 \<and>
   refcnt (bufs (bunpin (Buf 0 0) b_boot) (Buf 0 0)) = 0xFFFFFFFF \<and>
   refcnt (bufs (bpin (Buf 0 0) (bunpin (Buf 0 0) b_boot)) (Buf 0 0)) = 0"
  by (simp add: bufs_bpin bufs_bunpin boot_fields)

subsection \<open>Walks along a link field\<close>

lemma walk_ConsI: "f a = x \<Longrightarrow> walk f x xs z \<Longrightarrow> walk f a (x # xs) z"
  by simp

lemma walk_cong:
  "(\<And>x. x = a \<or> x \<in> set xs \<Longrightarrow> f' x = f x) \<Longrightarrow> walk f' a xs z = walk f a xs z"
  by (induction xs arbitrary: a) auto

lemma walk_append: "walk f a (xs @ y # ys) z = (walk f a xs y \<and> walk f y ys z)"
  by (induction xs arbitrary: a) auto

lemma walk_snoc: "walk f a (xs @ [y]) z = (walk f a xs y \<and> f y = z)"
  using walk_append [of f a xs y "[]" z] by simp

lemma walk_first: "walk f a xs z \<Longrightarrow> f a = hd (xs @ [z])"
  by (cases xs) auto

lemma walk_unique: "walk f a xs z \<Longrightarrow> walk f a ys z \<Longrightarrow> z \<notin> set xs \<Longrightarrow> z \<notin> set ys \<Longrightarrow> xs = ys"
proof (induction xs arbitrary: a ys)
  case Nil
  then show ?case by (cases ys) auto
next
  case (Cons x xs)
  then show ?case by (cases ys) auto
qed

lemma last_rev_hd: "last (a # rev ws) = hd (ws @ [a])"
  by (cases ws) auto


lemma walk_push:
  assumes "walk f a ws z" and "b \<notin> set ws" and "b \<noteq> a" and "a \<notin> set ws"
  shows "walk (f(b := f a, a := b)) a (b # ws) z"
proof (cases ws)
  case Nil
  then show ?thesis using assms by simp
next
  case (Cons w ws')
  then have fa: "f a = w" and ww: "walk f w ws' z" using assms(1) by simp_all
  have "walk (f(b := w, a := b)) w ws' z = walk f w ws' z"
    using assms Cons by (intro walk_cong) auto
  then have w1: "walk (f(b := w, a := b)) w ws' z" using ww by simp
  have e1: "(f(b := w, a := b)) b = w" using assms(3) by simp
  have w2: "walk (f(b := w, a := b)) b (w # ws') z" by (rule walk_ConsI [OF e1 w1])
  have e2: "(f(b := w, a := b)) a = b" by simp
  have "walk (f(b := w, a := b)) a (b # w # ws') z" by (rule walk_ConsI [OF e2 w2])
  then show ?thesis unfolding Cons fa .
qed

lemma walk_append_last:
  "walk g a us z \<Longrightarrow> b \<notin> set us \<Longrightarrow> b \<noteq> a \<Longrightarrow> distinct (a # us) \<Longrightarrow> p = last (a # us) \<Longrightarrow>
   walk (g(b := z, p := b)) a (us @ [b]) z"
proof (induction us arbitrary: a)
  case Nil
  then show ?case by simp
next
  case (Cons u us)
  then have ga: "g a = u" and w: "walk g u us z" by simp_all
  have pl: "p = last (u # us)" using Cons.prems(5) by simp
  have "last (u # us) \<in> set (u # us)" by (rule last_in_set) simp
  then have ne: "a \<noteq> p" using Cons.prems(4) pl by auto
  have bu: "b \<notin> set us" "b \<noteq> u" "distinct (u # us)" using Cons.prems by auto
  have "walk (g(b := z, p := b)) u (us @ [b]) z"
    using Cons.IH [OF w bu(1) bu(2) bu(3) pl] .
  moreover have "(g(b := z, p := b)) a = u" using ga ne Cons.prems(3) by simp
  ultimately have "walk (g(b := z, p := b)) a (u # (us @ [b])) z" by (simp only: walk.simps)
  then show ?case by (simp only: append_Cons)
qed


subsection \<open>Links and contents under assignments\<close>

lemma next_bufs: "next (bufs s r) = nexts s r" and prev_bufs: "prev (bufs s r) = prevs s r"
  by (simp_all add: nexts_def prevs_def)

lemma nexts_upd_next: "nexts (upd r (next_update (\<lambda>_. v)) s) = (nexts s)(r := v)"
  by (auto simp: nexts_def upd_def fun_eq_iff)

lemma prevs_upd_prev: "prevs (upd r (prev_update (\<lambda>_. v)) s) = (prevs s)(r := v)"
  by (auto simp: prevs_def upd_def fun_eq_iff)

lemma nexts_upd_other:
  "nexts (upd r (prev_update g) s) = nexts s" "nexts (upd r (refcnt_update g1) s) = nexts s"
  "nexts (upd r (dev_update g2) s) = nexts s" "nexts (upd r (blockno_update g3) s) = nexts s"
  "nexts (upd r (valid_update g4) s) = nexts s" "nexts (upd r (buf_lock_update g5) s) = nexts s"
  "nexts (upd r (data_update g6) s) = nexts s"
  by (auto simp: nexts_def upd_def fun_eq_iff)

lemma prevs_upd_other:
  "prevs (upd r (next_update g) s) = prevs s" "prevs (upd r (refcnt_update g1) s) = prevs s"
  "prevs (upd r (dev_update g2) s) = prevs s" "prevs (upd r (blockno_update g3) s) = prevs s"
  "prevs (upd r (valid_update g4) s) = prevs s" "prevs (upd r (buf_lock_update g5) s) = prevs s"
  "prevs (upd r (data_update g6) s) = prevs s"
  by (auto simp: prevs_def upd_def fun_eq_iff)

lemma links_bucket [simp]:
  "nexts (acquire_bucket i s) = nexts s" "prevs (acquire_bucket i s) = prevs s"
  "nexts (release_bucket i s) = nexts s" "prevs (release_bucket i s) = prevs s"
  by (simp_all add: nexts_def prevs_def)


lemma ring_links:
  "nexts s' = nexts s \<Longrightarrow> prevs s' = prevs s \<Longrightarrow> ring s' i xs = ring s i xs"
  by (simp add: ring_def)

lemma slot_of_iff: "slot_of i x = (\<exists>j. x = Buf i j)"
  by (cases x) (auto simp: slot_of_def)

lemma ring_head_notin: "ring s i xs \<Longrightarrow> Head j \<notin> set xs"
  by (auto simp: ring_def slot_of_iff)


lemma ring_unique: "ring s i xs \<Longrightarrow> ring s i ys \<Longrightarrow> xs = ys"
  using walk_unique [of "nexts s" "Head i" xs "Head i" ys] ring_head_notin
  by (auto simp: ring_def)

text \<open>A ring only depends on the links of its own head and slots.\<close>

lemma ring_other_bucket:
  assumes "\<And>r. r = Head j \<or> (\<exists>k. r = Buf j k) \<Longrightarrow> nexts s' r = nexts s r \<and> prevs s' r = prevs s r"
  shows "ring s' j ys = ring s j ys"
proof (cases "\<forall>x \<in> set ys. slot_of j x")
  case False
  then show ?thesis unfolding ring_def by blast
next
  case True
  have "walk (nexts s') (Head j) ys (Head j) = walk (nexts s) (Head j) ys (Head j)"
    using True assms by (intro walk_cong) (auto simp: slot_of_iff)
  moreover have "walk (prevs s') (Head j) (rev ys) (Head j) = walk (prevs s) (Head j) (rev ys) (Head j)"
    using True assms by (intro walk_cong) (auto simp: slot_of_iff)
  ultimately show ?thesis by (simp add: ring_def)
qed

subsection \<open>brelse moves the slot to the front\<close>





subsection \<open>The loops of bget on a well-formed list\<close>

lemma cached_walk:
  "walk (nexts s) a xs h \<Longrightarrow> h \<notin> set xs \<Longrightarrow>
   bget_cached s d bn h (nexts s a) = Some (find (matches s d bn) xs)"
proof (induction xs arbitrary: a)
  case Nil
  then show ?case by (subst bget_cached.simps) simp
next
  case (Cons x xs)
  then have e: "nexts s a = x" and w: "walk (nexts s) x xs h" and n: "x \<noteq> h" "h \<notin> set xs"
    by auto
  have ih: "bget_cached s d bn h (nexts s x) = Some (find (matches s d bn) xs)"
    using Cons.IH [OF w n(2)] .
  show ?case
    unfolding e using n(1) ih
    by (subst bget_cached.simps) (simp add: matches_def next_bufs)
qed

lemma recycle_walk:
  "walk (prevs s) a xs h \<Longrightarrow> h \<notin> set xs \<Longrightarrow>
   bget_recycle s h (prevs s a) = Some (find (unused s) xs)"
proof (induction xs arbitrary: a)
  case Nil
  then show ?case by (subst bget_recycle.simps) simp
next
  case (Cons x xs)
  then have e: "prevs s a = x" and w: "walk (prevs s) x xs h" and n: "x \<noteq> h" "h \<notin> set xs"
    by auto
  have ih: "bget_recycle s h (prevs s x) = Some (find (unused s) xs)"
    using Cons.IH [OF w n(2)] .
  show ?case
    unfolding e using n(1) ih
    by (subst bget_recycle.simps) (simp add: unused_def prev_bufs)
qed

lemma tests_bucket [simp]:
  "matches (acquire_bucket i s) = matches s" "unused (acquire_bucket i s) = unused s"
  by (simp_all add: matches_def unused_def fun_eq_iff)

text \<open>The state in which \<^verbatim>\<open>bget\<close> calls \<^verbatim>\<open>acquiresleep\<close>, on a hit and on a miss.\<close>

lemma bget_ring:
  assumes r: "ring s (bucket_of bn) xs"
  shows "bget pid d bn s =
    Some (case find (matches s d bn) xs of
            Some b \<Rightarrow> acquiresleep pid b
              (release_bucket (bucket_of bn)
                 (upd b (refcnt_update (\<lambda>c. c + 1)) (acquire_bucket (bucket_of bn) s)))
          | None \<Rightarrow>
              (case find (unused s) (rev xs) of
                 Some b \<Rightarrow> acquiresleep pid b
                   (release_bucket (bucket_of bn)
                      (upd b (refcnt_update (\<lambda>_. 1))
                        (upd b (valid_update (\<lambda>_. 0))
                          (upd b (blockno_update (\<lambda>_. bn))
                            (upd b (dev_update (\<lambda>_. d)) (acquire_bucket (bucket_of bn) s))))))
               | None \<Rightarrow> Fatal (Panic ''bget: no buffers'')))"
proof -
  define i where "i = bucket_of bn"
  define s1 where "s1 = acquire_bucket i s"
  have h: "Head i \<notin> set xs" "Head i \<notin> set (rev xs)"
    using r ring_head_notin [of s i xs i] by (simp_all add: i_def)
  have wf: "walk (nexts s1) (Head i) xs (Head i)"
    and wg: "walk (prevs s1) (Head i) (rev xs) (Head i)"
    using r by (simp_all add: ring_def s1_def i_def)
  have c: "bget_cached s1 d bn (Head i) (next (bufs s1 (Head i))) = Some (find (matches s d bn) xs)"
    using cached_walk [OF wf h(1), of d bn] by (simp add: next_bufs s1_def)
  have y: "bget_recycle s1 (Head i) (prev (bufs s1 (Head i))) = Some (find (unused s) (rev xs))"
    using recycle_walk [OF wg h(2)] by (simp add: prev_bufs s1_def)
  show ?thesis
    unfolding bget_def Let_def i_def [symmetric] s1_def [symmetric] c y
    by (simp split: option.splits)
qed

subsection \<open>binit builds the lists\<close>

lemma links_insert:
  "nexts (binit_insert i j s) = (nexts s)(Buf i j := nexts s (Head i), Head i := Buf i j)"
  "prevs (binit_insert i j s) = (prevs s)(Buf i j := Head i, nexts s (Head i) := Buf i j)"
  by (simp_all add: binit_insert_def Let_def next_bufs prev_bufs nexts_upd_next prevs_upd_prev
      nexts_upd_other prevs_upd_other)

lemma ring_insert:
  assumes r: "ring s i xs" and n: "Buf i j \<notin> set xs"
  shows "ring (binit_insert i j s) i (Buf i j # xs)"
proof -
  have f: "walk (nexts s) (Head i) xs (Head i)" and g: "walk (prevs s) (Head i) (rev xs) (Head i)"
    using r by (simp_all add: ring_def)
  have h: "Head i \<notin> set xs" using r by (rule ring_head_notin)
  have d: "distinct xs" using r by (simp add: ring_def)
  have w1: "walk (nexts (binit_insert i j s)) (Head i) (Buf i j # xs) (Head i)"
    unfolding links_insert using f n h by (intro walk_push) auto
  have p: "nexts s (Head i) = last (Head i # rev xs)"
    using walk_first [OF f] by (simp only: last_rev_hd)
  have "walk (prevs (binit_insert i j s)) (Head i) (rev xs @ [Buf i j]) (Head i)"
    unfolding links_insert using g n h d p by (intro walk_append_last) auto
  then have w2: "walk (prevs (binit_insert i j s)) (Head i) (rev (Buf i j # xs)) (Head i)"
    by simp
  show ?thesis
    using w1 w2 r n by (simp add: ring_def slot_of_def)
qed

lemma ring_insert_other:
  assumes r: "ring s i xs" and k: "k \<noteq> i"
  shows "ring (binit_insert i j s) k ys = ring s k ys"
proof (rule ring_other_bucket)
  fix r assume a: "r = Head k \<or> (\<exists>m. r = Buf k m)"
  have f: "walk (nexts s) (Head i) xs (Head i)" using r by (simp add: ring_def)
  have "nexts s (Head i) = hd (xs @ [Head i])" using walk_first [OF f] .
  then have "nexts s (Head i) = Head i \<or> nexts s (Head i) \<in> set xs" by (cases xs) auto
  then have "nexts s (Head i) = Head i \<or> (\<exists>m. nexts s (Head i) = Buf i m)"
    using r by (auto simp: ring_def slot_of_iff)
  then show "nexts (binit_insert i j s) r = nexts s r \<and> prevs (binit_insert i j s) r = prevs s r"
    using a k by (auto simp: links_insert)
qed

lemma ring_fold_insert:
  "ring s i xs \<Longrightarrow> distinct js \<Longrightarrow> (\<forall>j \<in> set js. Buf i j \<notin> set xs) \<Longrightarrow>
   ring (fold (binit_insert i) js s) i (rev (map (Buf i) js) @ xs) \<and>
   (\<forall>k ys. k \<noteq> i \<longrightarrow> ring (fold (binit_insert i) js s) k ys = ring s k ys)"
proof (induction js arbitrary: s xs)
  case Nil
  then show ?case by simp
next
  case (Cons j js)
  have r1: "ring (binit_insert i j s) i (Buf i j # xs)"
    using Cons.prems by (intro ring_insert) auto
  have "ring (fold (binit_insert i) js (binit_insert i j s)) i (rev (map (Buf i) js) @ Buf i j # xs) \<and>
        (\<forall>k ys. k \<noteq> i \<longrightarrow> ring (fold (binit_insert i) js (binit_insert i j s)) k ys
                              = ring (binit_insert i j s) k ys)"
    using Cons.prems by (intro Cons.IH [OF r1]) auto
  then show ?case
    using ring_insert_other [OF Cons.prems(1)] by simp
qed

lemma ring_empty_head:
  "nexts s (Head i) = Head i \<Longrightarrow> prevs s (Head i) = Head i \<Longrightarrow> ring s i []"
  by (simp add: ring_def)

lemma ring_bucket:
  "ring (binit_bucket nbuf i s) i (rev (map (Buf i) [0..<nbuf div NBUCKETS]))"
  "k \<noteq> i \<Longrightarrow> ring (binit_bucket nbuf i s) k ys = ring s k ys"
proof -
  define s3 where "s3 = upd (Head i) (next_update (\<lambda>_. Head i))
     (upd (Head i) (prev_update (\<lambda>_. Head i)) (s\<lparr>spin := (spin s)(i := False)\<rparr>))"
  have l: "nexts s3 = (nexts s)(Head i := Head i)" "prevs s3 = (prevs s)(Head i := Head i)"
    by (simp_all add: s3_def nexts_upd_next prevs_upd_prev nexts_upd_other prevs_upd_other)
      (simp_all add: nexts_def prevs_def)
  have e: "ring s3 i []" by (rule ring_empty_head) (simp_all add: l)
  have o: "\<And>k ys. k \<noteq> i \<Longrightarrow> ring s3 k ys = ring s k ys"
    by (rule ring_other_bucket) (auto simp: l)
  have b: "binit_bucket nbuf i s = fold (binit_insert i) [0..<nbuf div NBUCKETS] s3"
    by (simp add: binit_bucket_def s3_def Let_def)
  have m: "ring (fold (binit_insert i) [0..<nbuf div NBUCKETS] s3) i
             (rev (map (Buf i) [0..<nbuf div NBUCKETS]) @ []) \<and>
           (\<forall>k ys. k \<noteq> i \<longrightarrow> ring (fold (binit_insert i) [0..<nbuf div NBUCKETS] s3) k ys
                                 = ring s3 k ys)"
    by (rule ring_fold_insert [OF e]) simp_all
  show "ring (binit_bucket nbuf i s) i (rev (map (Buf i) [0..<nbuf div NBUCKETS]))"
    using m by (simp add: b)
  show "k \<noteq> i \<Longrightarrow> ring (binit_bucket nbuf i s) k ys = ring s k ys"
    using m o by (simp add: b)
qed

lemma ring_fold_bucket:
  "distinct ks \<Longrightarrow> i \<in> set ks \<Longrightarrow>
   ring (fold (binit_bucket nbuf) ks s) i (rev (map (Buf i) [0..<nbuf div NBUCKETS]))"
proof (induction ks arbitrary: s)
  case Nil
  then show ?case by simp
next
  case (Cons k ks)
  have keep: "\<And>t ys. i \<notin> set ks \<Longrightarrow> ring (fold (binit_bucket nbuf) ks t) i ys = ring t i ys"
  proof -
    fix t ys show "i \<notin> set ks \<Longrightarrow> ring (fold (binit_bucket nbuf) ks t) i ys = ring t i ys"
    proof (induction ks arbitrary: t)
      case Nil
      then show ?case by simp
    next
      case (Cons a as)
      then show ?case using ring_bucket(2) [of i a nbuf t ys] by simp
    qed
  qed
  show ?case
  proof (cases "i = k")
    case True
    then have "i \<notin> set ks" using Cons.prems by simp
    then show ?thesis using keep ring_bucket(1) [of nbuf i s] True by simp
  next
    case False
    then show ?thesis using Cons by simp
  qed
qed

lemma binit_ring:
  "i < NBUCKETS \<Longrightarrow> ring (binit nbuf s) i (rev (map (Buf i) [0..<nbuf div NBUCKETS]))"
  unfolding binit_def by (rule ring_fold_bucket) simp_all

text \<open>\<^verbatim>\<open>binit\<close> leaves the other fields as they are, and frees the exclusive locks.\<close>

lemma content_insert:
  "\<forall>r. buf_lock (bufs s r) = None \<Longrightarrow> content (bufs (binit_insert i j s) r) = content (bufs s r)"
  by (simp add: binit_insert_def Let_def content_def bufs_upd)

lemma all_free_content:
  "\<forall>r. buf_lock (bufs s r) = None \<Longrightarrow> (\<And>r. content (bufs s' r) = content (bufs s r)) \<Longrightarrow>
   \<forall>r. buf_lock (bufs s' r) = None"
  by (simp add: content_def)

lemma content_fold_insert:
  "\<forall>r. buf_lock (bufs s r) = None \<Longrightarrow> content (bufs (fold (binit_insert i) js s) r) = content (bufs s r)"
proof (induction js arbitrary: s)
  case Nil
  then show ?case by simp
next
  case (Cons j js)
  have "\<forall>r. buf_lock (bufs (binit_insert i j s) r) = None"
    by (rule all_free_content [OF Cons.prems]) (simp add: content_insert Cons.prems)
  then show ?case using Cons.IH Cons.prems by (simp add: content_insert)
qed

lemma content_bucket:
  assumes "\<forall>r. buf_lock (bufs s r) = None"
  shows "content (bufs (binit_bucket nbuf i s) r) = content (bufs s r)"
proof -
  define s3 where "s3 = upd (Head i) (next_update (\<lambda>_. Head i))
     (upd (Head i) (prev_update (\<lambda>_. Head i)) (s\<lparr>spin := (spin s)(i := False)\<rparr>))"
  have c: "\<And>r. content (bufs s3 r) = content (bufs s r)"
    by (simp add: s3_def content_def bufs_upd upd_def)
  have "\<forall>r. buf_lock (bufs s3 r) = None" by (rule all_free_content [OF assms]) (simp add: c)
  then show ?thesis
    using content_fold_insert [of s3 i "[0..<nbuf div NBUCKETS]" r] c
    by (simp add: binit_bucket_def s3_def Let_def)
qed

lemma content_fold_bucket:
  "\<forall>r. buf_lock (bufs s r) = None \<Longrightarrow> content (bufs (fold (binit_bucket nbuf) ks s) r) = content (bufs s r)"
proof (induction ks arbitrary: s)
  case Nil
  then show ?case by simp
next
  case (Cons k ks)
  have "\<forall>r. buf_lock (bufs (binit_bucket nbuf k s) r) = None"
    by (rule all_free_content [OF Cons.prems]) (simp add: content_bucket Cons.prems)
  then show ?case using Cons.IH Cons.prems by (simp add: content_bucket)
qed

lemma content_binit:
  "content (bufs (binit nbuf (bboot d k)) r) = (0, 0, 0, None, 0, replicate k 0)"
proof -
  have a: "\<forall>r. buf_lock (bufs (bboot d k) r) = None" by (simp add: bboot_def)
  show ?thesis
    unfolding binit_def content_fold_bucket [OF a]
    by (simp add: content_def bboot_def)
qed

lemma binit_inv:
  "bcache_inv (binit nbuf (bboot d k)) (\<lambda>i. rev (map (Buf i) [0..<nbuf div NBUCKETS]))"
  using content_binit [of nbuf d k]
  by (simp add: bcache_inv_def binit_ring content_def)

subsection \<open>The invariant is kept\<close>

lemma bucket_of_lt: "bucket_of bn < NBUCKETS"
  by (simp add: bucket_of_def NBUCKETS_def)

lemma inv_ring: "bcache_inv s rl \<Longrightarrow> i < NBUCKETS \<Longrightarrow> ring s i (rl i)"
  by (simp add: bcache_inv_def)

lemma inv_locked:
  "bcache_inv s rl \<Longrightarrow> i < NBUCKETS \<Longrightarrow> b \<in> set (rl i) \<Longrightarrow> buf_lock (bufs s b) \<noteq> None \<Longrightarrow>
   bucket_of (blockno (bufs s b)) = i"
  by (simp add: bcache_inv_def)

lemma ring_slot: "ring s i xs \<Longrightarrow> b \<in> set xs \<Longrightarrow> slot_of i b"
  by (simp add: ring_def)

lemma slot_of_same: "slot_of i b \<Longrightarrow> slot_of k b \<Longrightarrow> i = k"
  by (cases b) (auto simp: slot_of_def)

lemma inv_same_bucket:
  "bcache_inv s rl \<Longrightarrow> i < NBUCKETS \<Longrightarrow> k < NBUCKETS \<Longrightarrow> b \<in> set (rl i) \<Longrightarrow> b \<in> set (rl k) \<Longrightarrow>
   i = k"
  using inv_ring ring_slot slot_of_same by metis

lemma inv_keep:
  assumes i: "bcache_inv s rl" and f: "nexts s' = nexts s" and g: "prevs s' = prevs s"
    and l: "\<And>k x. k < NBUCKETS \<Longrightarrow> x \<in> set (rl k) \<Longrightarrow> buf_lock (bufs s' x) \<noteq> None \<Longrightarrow>
              (buf_lock (bufs s x) \<noteq> None \<and> blockno (bufs s' x) = blockno (bufs s x)) \<or>
              bucket_of (blockno (bufs s' x)) = k"
  shows "bcache_inv s' rl"
  unfolding bcache_inv_def
proof (intro allI impI conjI ballI)
  fix k assume k: "k < NBUCKETS"
  show "ring s' k (rl k)" using inv_ring [OF i k] by (simp add: ring_links [OF f g])
  fix x assume x: "x \<in> set (rl k)" and n: "buf_lock (bufs s' x) \<noteq> None"
  show "bucket_of (blockno (bufs s' x)) = k"
    using l [OF k x n] inv_locked [OF i k x] by auto
qed

lemma links_content:
  "nexts (s\<lparr>bufs := (bufs s)(b := x)\<rparr>) = (nexts s)(b := next x)"
  "prevs (s\<lparr>bufs := (bufs s)(b := x)\<rparr>) = (prevs s)(b := prev x)"
  "nexts (s\<lparr>spin := sp\<rparr>) = nexts s" "prevs (s\<lparr>spin := sp\<rparr>) = prevs s"
  "nexts (s\<lparr>disk := ds\<rparr>) = nexts s" "prevs (s\<lparr>disk := ds\<rparr>) = prevs s"
  "nexts (s\<lparr>iolog := io\<rparr>) = nexts s" "prevs (s\<lparr>iolog := io\<rparr>) = prevs s"
  by (auto simp: nexts_def prevs_def fun_eq_iff)

lemma hit_state:
  "release_bucket i (upd b (refcnt_update (\<lambda>c. c + 1)) (acquire_bucket i s)) =
   s\<lparr>bufs := (bufs s)(b := (bufs s b)\<lparr>refcnt := refcnt (bufs s b) + 1\<rparr>),
     spin := (spin s)(i := False)\<rparr>"
proof -
  have e: "\<And>x. refcnt_update (\<lambda>c. c + 1) x = x\<lparr>refcnt := refcnt x + 1\<rparr>"
    by (case_tac x) simp
  show ?thesis
    by (simp add: upd_def acquire_bucket_def release_bucket_def e)
qed

lemma miss_state:
  "release_bucket i
     (upd b (refcnt_update (\<lambda>_. 1))
       (upd b (valid_update (\<lambda>_. 0))
         (upd b (blockno_update (\<lambda>_. bn))
           (upd b (dev_update (\<lambda>_. d)) (acquire_bucket i s))))) =
   s\<lparr>bufs := (bufs s)(b := (bufs s b)\<lparr>dev := d, blockno := bn, valid := 0, refcnt := 1\<rparr>),
     spin := (spin s)(i := False)\<rparr>"
  by (simp add: upd_def acquire_bucket_def release_bucket_def)

lemma acquiresleep_cases:
  "acquiresleep pid b s = Returns (s', c) \<or> acquiresleep pid b s = Waits s' c \<Longrightarrow>
   c = b \<and> (s' = s \<or> buf_lock (bufs s b) = None \<and> s' = upd b (buf_lock_update (\<lambda>_. Some pid)) s)"
  by (auto simp: acquiresleep_def split: if_splits)

lemma find_in: "find P xs = Some b \<Longrightarrow> b \<in> set xs \<and> P b"
  by (induction xs) (auto split: if_splits)

lemma find_none: "find P xs = None \<Longrightarrow> x \<in> set xs \<Longrightarrow> \<not> P x"
  by (induction xs) (auto split: if_splits)

text \<open>
  \<^verbatim>\<open>bget\<close>, returning or waiting for the exclusive lock, keeps the invariant, and its slot is
  a slot of the bucket of the block.
\<close>

lemma bget_inv:
  assumes i: "bcache_inv s rl"
    and r: "bget pid d bn s = Some (Returns (s', c)) \<or> bget pid d bn s = Some (Waits s' c)"
  shows "bcache_inv s' rl \<and> c \<in> set (rl (bucket_of bn)) \<and> blockno (bufs s' c) = bn \<and>
         dev (bufs s' c) = d"
proof -
  define k where "k = bucket_of bn"
  have k: "k < NBUCKETS" by (simp add: k_def bucket_of_lt)
  have rg: "ring s (bucket_of bn) (rl k)" using inv_ring [OF i k] by (simp add: k_def)
  note g = bget_ring [OF rg, of pid d, unfolded hit_state miss_state]
  have main: "\<And>t. c \<in> set (rl k) \<Longrightarrow> nexts t = nexts s \<Longrightarrow> prevs t = prevs s \<Longrightarrow>
      blockno (bufs t c) = bn \<Longrightarrow> (\<And>x. x \<noteq> c \<Longrightarrow> bufs t x = bufs s x) \<Longrightarrow>
      s' = t \<or> s' = upd c (buf_lock_update (\<lambda>_. Some pid)) t \<Longrightarrow> bcache_inv s' rl"
  proof -
    fix t
    assume c: "c \<in> set (rl k)" and f: "nexts t = nexts s" and p: "prevs t = prevs s"
      and b: "blockno (bufs t c) = bn" and o: "\<And>x. x \<noteq> c \<Longrightarrow> bufs t x = bufs s x"
      and s': "s' = t \<or> s' = upd c (buf_lock_update (\<lambda>_. Some pid)) t"
    have f': "nexts s' = nexts s" and p': "prevs s' = prevs s"
      using s' f p by (auto simp: nexts_upd_other prevs_upd_other)
    have b': "blockno (bufs s' c) = bn" using s' b by (auto simp: bufs_upd)
    have o': "\<And>x. x \<noteq> c \<Longrightarrow> bufs s' x = bufs s x" using s' o by (auto simp: bufs_upd)
    show "bcache_inv s' rl"
    proof (rule inv_keep [OF i f' p'])
      fix m x assume m: "m < NBUCKETS" and x: "x \<in> set (rl m)"
        and n: "buf_lock (bufs s' x) \<noteq> None"
      show "(buf_lock (bufs s x) \<noteq> None \<and> blockno (bufs s' x) = blockno (bufs s x)) \<or>
            bucket_of (blockno (bufs s' x)) = m"
      proof (cases "x = c")
        case True
        then have "k = m" using inv_same_bucket [OF i k m c] x by simp
        then show ?thesis using b' True by (simp add: k_def)
      next
        case False
        then show ?thesis using o' n by simp
      qed
    qed
  qed
  show ?thesis
  proof (cases "find (matches s d bn) (rl k)")
    case (Some b)
    define t where "t = s\<lparr>bufs := (bufs s)(b := (bufs s b)\<lparr>refcnt := refcnt (bufs s b) + 1\<rparr>),
                          spin := (spin s)(bucket_of bn := False)\<rparr>"
    have fb: "b \<in> set (rl k)" "matches s d bn b" using find_in [OF Some] by simp_all
    have "bget pid d bn s = Some (acquiresleep pid b t)" using g Some by (simp add: t_def)
    then have ac: "c = b \<and> (s' = t \<or> buf_lock (bufs t b) = None \<and>
                     s' = upd b (buf_lock_update (\<lambda>_. Some pid)) t)"
      using r acquiresleep_cases [of pid b t s' c] by auto
    have c: "c \<in> set (rl k)" using ac fb by simp
    have bt: "blockno (bufs t c) = bn" "dev (bufs t c) = d"
      using ac fb by (simp_all add: t_def matches_def)
    have "bcache_inv s' rl"
      using ac by (intro main [of t] c bt) (auto simp: t_def links_content next_bufs prev_bufs)
    moreover have "blockno (bufs s' c) = bn" "dev (bufs s' c) = d"
      using ac bt by (auto simp: bufs_upd)
    ultimately show ?thesis using c by (simp add: k_def)
  next
    case None
    show ?thesis
    proof (cases "find (unused s) (rev (rl k))")
      case (Some b)
      define t where "t = s\<lparr>bufs := (bufs s)(b := (bufs s b)\<lparr>dev := d, blockno := bn,
                                                    valid := 0, refcnt := 1\<rparr>),
                            spin := (spin s)(bucket_of bn := False)\<rparr>"
      have fb: "b \<in> set (rl k)" using find_in [OF Some] by simp
      have "bget pid d bn s = Some (acquiresleep pid b t)"
        using g None Some by (simp add: t_def)
      then have ac: "c = b \<and> (s' = t \<or> buf_lock (bufs t b) = None \<and>
                       s' = upd b (buf_lock_update (\<lambda>_. Some pid)) t)"
        using r acquiresleep_cases [of pid b t s' c] by auto
      have c: "c \<in> set (rl k)" using ac fb by simp
      have bt: "blockno (bufs t c) = bn" "dev (bufs t c) = d" using ac by (simp_all add: t_def)
      have "bcache_inv s' rl"
        using ac by (intro main [of t] c bt) (auto simp: t_def links_content next_bufs prev_bufs)
      moreover have "blockno (bufs s' c) = bn" "dev (bufs s' c) = d"
        using ac bt by (auto simp: bufs_upd)
      ultimately show ?thesis using c by (simp add: k_def)
    next
      case N2: None
      have "bget pid d bn s = Some (Fatal (Panic ''bget: no buffers''))"
        using g None N2 by simp
      then show ?thesis using r by simp
    qed
  qed
qed


lemma bunpin_inv: "bcache_inv s rl \<Longrightarrow> bcache_inv (bunpin b s) rl"
  by (rule inv_keep)
    (auto simp: bunpin_def Let_def nexts_upd_other prevs_upd_other bufs_upd)

lemma bwrite_inv:
  assumes i: "bcache_inv s rl" and w: "bwrite pid b s = Inr s'"
  shows "bcache_inv s' rl"
proof -
  have s': "s' = virtio_disk_rw b True s" using w by (auto simp: bwrite_def split: if_splits)
  show ?thesis
    unfolding s' by (rule inv_keep [OF i]) (simp_all add: virtio_disk_rw_def Let_def links_content)
qed

text \<open>
  Claim C2. In a state satisfying the invariant of the cache, let \<open>xs\<close> be the list of the
  bucket of the block, from \<^verbatim>\<open>head.next\<close> to \<^verbatim>\<open>head.prev\<close>. If a slot of \<open>xs\<close> has the
  identity \<open>(d, bn)\<close>, \<^verbatim>\<open>bget\<close> takes the first such slot and calls \<^verbatim>\<open>acquiresleep\<close> on it in
  a state that differs from the initial one in the reference count of that slot, which is
  one more (the counter is a \<^verbatim>\<open>uint\<close>), and in nothing else of any buffer. Otherwise, if
  some slot has a reference count of zero, it takes the first such slot from the end of
  \<open>xs\<close>, so a slot whose reference count is zero, and calls \<^verbatim>\<open>acquiresleep\<close> on it with the
  identity set to \<open>(d, bn)\<close>, \<^verbatim>\<open>valid\<close> cleared and the reference count set to 1, and nothing
  else of any buffer changed. Otherwise it panics. \<^verbatim>\<open>acquiresleep\<close> returns the slot with
  the lock taken when the lock is free, and waits when it is not. The call always ends in
  one of these ways.
\<close>

theorem bget_spec:
  assumes "bcache_inv s rl"
  shows
    "(\<forall>b. find (matches s d bn) (rl (bucket_of bn)) = Some b \<longrightarrow>
        b \<in> set (rl (bucket_of bn)) \<and>
        bget pid d bn s =
          Some (acquiresleep pid b
            (s\<lparr>bufs := (bufs s)(b := (bufs s b)\<lparr>refcnt := refcnt (bufs s b) + 1\<rparr>),
               spin := (spin s)(bucket_of bn := False)\<rparr>))) \<and>
     (find (matches s d bn) (rl (bucket_of bn)) = None \<longrightarrow>
        (\<forall>b. find (unused s) (rev (rl (bucket_of bn))) = Some b \<longrightarrow>
           b \<in> set (rl (bucket_of bn)) \<and> refcnt (bufs s b) = 0 \<and>
           bget pid d bn s =
             Some (acquiresleep pid b
               (s\<lparr>bufs := (bufs s)(b := (bufs s b)\<lparr>dev := d, blockno := bn,
                                                  valid := 0, refcnt := 1\<rparr>),
                  spin := (spin s)(bucket_of bn := False)\<rparr>))) \<and>
        (find (unused s) (rev (rl (bucket_of bn))) = None \<longrightarrow>
           (\<forall>b \<in> set (rl (bucket_of bn)). refcnt (bufs s b) \<noteq> 0) \<and>
           bget pid d bn s = Some (Fatal (Panic ''bget: no buffers''))))"
proof -
  have rg: "ring s (bucket_of bn) (rl (bucket_of bn))"
    using inv_ring [OF assms bucket_of_lt] .
  note g = bget_ring [OF rg, of pid d, unfolded hit_state miss_state]
  have n: "find (unused s) (rev (rl (bucket_of bn))) = None \<Longrightarrow>
           \<forall>b \<in> set (rl (bucket_of bn)). refcnt (bufs s b) \<noteq> 0"
    using find_none [of "unused s" "rev (rl (bucket_of bn))"] by (auto simp: unused_def)
  show ?thesis
    using g n by (auto dest: find_in simp: unused_def)
qed

lemma b_lists_eq: "(\<lambda>i. rev (map (Buf i) [0..<14 div NBUCKETS])) = b_lists"
proof
  fix i
  have "[0..<14 div NBUCKETS] = [0, 1]" by (simp add: NBUCKETS_def upt_rec)
  then show "rev (map (Buf i) [0..<14 div NBUCKETS]) = b_lists i" by (simp add: b_lists_def)
qed

lemma b_init_inv: "bcache_inv b_init b_lists"
  using binit_inv [of 14 disk0 8] by (simp add: b_init_def b_boot_def b_lists_eq)

lemma b_init_fields:
  "valid (bufs b_init r) = 0" "dev (bufs b_init r) = 0" "blockno (bufs b_init r) = 0"
  "buf_lock (bufs b_init r) = None" "refcnt (bufs b_init r) = 0"
  "data (bufs b_init r) = replicate 8 0"
  using content_binit [of 14 disk0 8 r] by (simp_all add: b_init_def b_boot_def content_def)

theorem bget_spec_witness:
  "bcache_inv b_init b_lists \<and>
   bget 1 0 1 b_init =
     Some (Returns
       (b_init\<lparr>bufs := (bufs b_init)(Buf 1 0 := (bufs b_init (Buf 1 0))
                  \<lparr>dev := 0, blockno := 1, valid := 0, refcnt := 1, buf_lock := Some 1\<rparr>),
               spin := (spin b_init)(1 := False)\<rparr>, Buf 1 0))"
proof -
  have b: "bucket_of 1 = 1" by (simp add: bucket_of_def NBUCKETS_def)
  have m: "find (matches b_init 0 1) (b_lists 1) = None"
    by (simp add: b_lists_def matches_def b_init_fields)
  have u: "find (unused b_init) (rev (b_lists 1)) = Some (Buf 1 0)"
    by (simp add: b_lists_def unused_def b_init_fields)
  show ?thesis
    using bget_spec [OF b_init_inv, of 0 1 1] m u b_init_inv
    by (simp add: b acquiresleep_def b_init_fields upd_def)
qed

subsection \<open>bread\<close>

lemma bget_cached_match:
  assumes "bget_cached s d bn h x = Some (Some b)"
  shows "dev (bufs s b) = d \<and> blockno (bufs s b) = bn"
proof -
  define P where "P = (\<lambda>(s :: bcache) (d :: u32) (bn :: u32) (h :: bref) (x :: bref)
     (y :: bref option). \<forall>c. y = Some c \<longrightarrow> dev (bufs s c) = d \<and> blockno (bufs s c) = bn)"
  have step: "P s1 d1 bn1 h1 x1 y1"
    if ih: "\<And>s d bn h x y. f s d bn h x = Some y \<Longrightarrow> P s d bn h x y"
      and eq: "(if x1 = h1 then Some None
                else if dev (bufs s1 x1) = d1 \<and> blockno (bufs s1 x1) = bn1 then Some (Some x1)
                else f s1 d1 bn1 h1 (next (bufs s1 x1))) = Some y1"
    for f s1 d1 bn1 h1 x1 y1
  proof (cases "x1 = h1")
    case True
    then have "y1 = None" using eq by simp
    then show ?thesis by (simp add: P_def)
  next
    case False
    show ?thesis
    proof (cases "dev (bufs s1 x1) = d1 \<and> blockno (bufs s1 x1) = bn1")
      case True
      then have "y1 = Some x1" using eq False by simp
      then show ?thesis using True by (simp add: P_def)
    next
      case nz: False
      then have "f s1 d1 bn1 h1 (next (bufs s1 x1)) = Some y1"
        using eq False by (auto split: if_splits)
      then have "P s1 d1 bn1 h1 (next (bufs s1 x1)) y1" by (rule ih)
      then show ?thesis by (simp add: P_def)
    qed
  qed
  have "P s d bn h x (Some b)"
    by (rule bget_cached.raw_induct [of P, OF step assms])
  then show ?thesis by (simp add: P_def)
qed

text \<open>\<^verbatim>\<open>bget\<close> performs no storage operation; the slot it returns is locked by the caller and
  has the identity asked for.\<close>

lemma bget_returns:
  assumes "bget pid d bn s = Some (Returns (s1, b))"
  shows "dev (bufs s1 b) = d \<and> blockno (bufs s1 b) = bn \<and> buf_lock (bufs s1 b) = Some pid \<and>
         iolog s1 = iolog s \<and> disk s1 = disk s"
proof (cases "bget_cached (acquire_bucket (bucket_of bn) s) d bn (Head (bucket_of bn))
                (next (bufs (acquire_bucket (bucket_of bn) s) (Head (bucket_of bn))))")
  case None
  then show ?thesis using assms by (simp add: bget_def Let_def)
next
  case (Some y)
  show ?thesis
  proof (cases y)
    case hit: (Some c)
    have m: "dev (bufs s c) = d \<and> blockno (bufs s c) = bn"
      using bget_cached_match [of "acquire_bucket (bucket_of bn) s" d bn _ _ c] Some hit by simp
    show ?thesis
      using assms Some hit m
      by (auto simp: bget_def Let_def acquiresleep_def bufs_upd split: if_splits)
  next
    case miss: None
    show ?thesis
      using assms Some miss
      by (auto simp: bget_def Let_def acquiresleep_def bufs_upd
          split: if_splits option.splits)
  qed
qed

lemma bget_waits:
  assumes "bget pid d bn s = Some (Waits s1 b)"
  shows "iolog s1 = iolog s \<and> disk s1 = disk s"
  using assms
  by (auto simp: bget_def Let_def acquiresleep_def split: if_splits option.splits)

lemma bread_fill_frame:
  "nexts (bread_fill b s) = nexts s" "prevs (bread_fill b s) = prevs s"
  "buf_lock (bufs (bread_fill b s) x) = buf_lock (bufs s x)"
  "blockno (bufs (bread_fill b s) x) = blockno (bufs s x)"
  by (simp_all add: bread_fill_def virtio_disk_rw_def Let_def nexts_upd_other prevs_upd_other
      links_content bufs_upd)

lemma bread_fill_inv: "bcache_inv s rl \<Longrightarrow> bcache_inv (bread_fill b s) rl"
  by (rule inv_keep) (auto simp: bread_fill_frame)

lemma bread_inv:
  assumes i: "bcache_inv s rl"
    and r: "bread pid d bn s = Some (Returns (s', c)) \<or> bread pid d bn s = Some (Waits s' c)"
  shows "bcache_inv s' rl"
proof (cases "bget pid d bn s")
  case None
  then show ?thesis using r by (simp add: bread_def)
next
  case (Some o1)
  show ?thesis
  proof (cases o1)
    case (Fatal e)
    then show ?thesis using r Some by (simp add: bread_def)
  next
    case (Waits t b)
    then have "s' = t" using r Some by (simp add: bread_def)
    then show ?thesis using bget_inv [OF i, of pid d bn t b] Some Waits by simp
  next
    case (Returns p)
    obtain t b where p: "p = (t, b)" by (cases p)
    have "s' = bread_fill b t" using r Some Returns p by (auto simp: bread_def)
    moreover have "bcache_inv t rl" using bget_inv [OF i, of pid d bn t b] Some Returns p by simp
    ultimately show ?thesis by (simp add: bread_fill_inv)
  qed
qed

text \<open>
  Claim C3. \<^verbatim>\<open>bread\<close> calls \<^verbatim>\<open>bget\<close>, which performs no storage operation. When \<^verbatim>\<open>bget\<close>
  returns a slot (locked by the caller, with the identity asked for), \<^verbatim>\<open>bread\<close> returns
  this slot, still locked and now valid: if the slot was invalid, the log of storage
  operations has grown by exactly one read of the block, the payload of the slot is the
  content of the block on the disk, \<^verbatim>\<open>valid\<close> is 1 and nothing else has changed; if the
  slot was valid, the state is the one \<^verbatim>\<open>bget\<close> returned, with no storage operation. When
  \<^verbatim>\<open>bget\<close> panics or has to wait for the lock, so does \<^verbatim>\<open>bread\<close>, with no storage
  operation; the rest of \<^verbatim>\<open>bread\<close>, which runs when the lock has been taken, is
  \<open>bread_fill\<close>, and it performs one read on an invalid slot and none on a valid one.
\<close>

theorem bread_spec:
  "(\<forall>s1 b. bget pid d bn s = Some (Returns (s1, b)) \<longrightarrow>
      iolog s1 = iolog s \<and>
      bread pid d bn s = Some (Returns (bread_fill b s1, b)) \<and>
      holdingsleep pid (bufs (bread_fill b s1) b) \<and>
      dev (bufs (bread_fill b s1) b) = d \<and> blockno (bufs (bread_fill b s1) b) = bn \<and>
      valid (bufs (bread_fill b s1) b) \<noteq> 0 \<and>
      disk (bread_fill b s1) = disk s \<and>
      (valid (bufs s1 b) = 0 \<longrightarrow>
         iolog (bread_fill b s1) = iolog s @ [DiskRead d bn] \<and>
         bufs (bread_fill b s1) =
           (bufs s1)(b := (bufs s1 b)\<lparr>data := disk s (d, bn), valid := 1\<rparr>)) \<and>
      (valid (bufs s1 b) \<noteq> 0 \<longrightarrow> bread_fill b s1 = s1)) \<and>
   (\<forall>e. bget pid d bn s = Some (Fatal e) \<longrightarrow> bread pid d bn s = Some (Fatal e)) \<and>
   (\<forall>s1 b. bget pid d bn s = Some (Waits s1 b) \<longrightarrow>
      bread pid d bn s = Some (Waits s1 b) \<and> iolog s1 = iolog s) \<and>
   (\<forall>t b. valid (bufs t b) = 0 \<longrightarrow>
      iolog (bread_fill b t) = iolog t @ [DiskRead (dev (bufs t b)) (blockno (bufs t b))] \<and>
      bufs (bread_fill b t) =
        (bufs t)(b := (bufs t b)\<lparr>data := disk t (dev (bufs t b), blockno (bufs t b)),
                                 valid := 1\<rparr>)) \<and>
   (\<forall>t b. valid (bufs t b) \<noteq> 0 \<longrightarrow> bread_fill b t = t)"
proof -
  have fill: "\<And>t b. valid (bufs t b) = 0 \<Longrightarrow>
      iolog (bread_fill b t) = iolog t @ [DiskRead (dev (bufs t b)) (blockno (bufs t b))] \<and>
      bufs (bread_fill b t) =
        (bufs t)(b := (bufs t b)\<lparr>data := disk t (dev (bufs t b), blockno (bufs t b)),
                                 valid := 1\<rparr>) \<and>
      disk (bread_fill b t) = disk t"
    by (simp add: bread_fill_def virtio_disk_rw_def Let_def upd_def)
  have keep: "\<And>t b. valid (bufs t b) \<noteq> 0 \<Longrightarrow> bread_fill b t = t"
    by (simp add: bread_fill_def)
  have ret: "\<And>s1 b. bget pid d bn s = Some (Returns (s1, b)) \<Longrightarrow>
      iolog s1 = iolog s \<and>
      bread pid d bn s = Some (Returns (bread_fill b s1, b)) \<and>
      holdingsleep pid (bufs (bread_fill b s1) b) \<and>
      dev (bufs (bread_fill b s1) b) = d \<and> blockno (bufs (bread_fill b s1) b) = bn \<and>
      valid (bufs (bread_fill b s1) b) \<noteq> 0 \<and>
      disk (bread_fill b s1) = disk s \<and>
      (valid (bufs s1 b) = 0 \<longrightarrow>
         iolog (bread_fill b s1) = iolog s @ [DiskRead d bn] \<and>
         bufs (bread_fill b s1) =
           (bufs s1)(b := (bufs s1 b)\<lparr>data := disk s (d, bn), valid := 1\<rparr>)) \<and>
      (valid (bufs s1 b) \<noteq> 0 \<longrightarrow> bread_fill b s1 = s1)"
  proof -
    fix s1 b assume g: "bget pid d bn s = Some (Returns (s1, b))"
    note r = bget_returns [OF g]
    have b: "bread pid d bn s = Some (Returns (bread_fill b s1, b))"
      using g by (simp add: bread_def)
    show "iolog s1 = iolog s \<and>
      bread pid d bn s = Some (Returns (bread_fill b s1, b)) \<and>
      holdingsleep pid (bufs (bread_fill b s1) b) \<and>
      dev (bufs (bread_fill b s1) b) = d \<and> blockno (bufs (bread_fill b s1) b) = bn \<and>
      valid (bufs (bread_fill b s1) b) \<noteq> 0 \<and>
      disk (bread_fill b s1) = disk s \<and>
      (valid (bufs s1 b) = 0 \<longrightarrow>
         iolog (bread_fill b s1) = iolog s @ [DiskRead d bn] \<and>
         bufs (bread_fill b s1) =
           (bufs s1)(b := (bufs s1 b)\<lparr>data := disk s (d, bn), valid := 1\<rparr>)) \<and>
      (valid (bufs s1 b) \<noteq> 0 \<longrightarrow> bread_fill b s1 = s1)"
    proof (cases "valid (bufs s1 b) = 0")
      case True
      show ?thesis using fill [OF True] r b True by (simp add: holdingsleep_def)
    next
      case False
      show ?thesis using keep [OF False] r b False by (simp add: holdingsleep_def)
    qed
  qed
  have fat: "\<And>e. bget pid d bn s = Some (Fatal e) \<Longrightarrow> bread pid d bn s = Some (Fatal e)"
    by (simp add: bread_def)
  have wt: "\<And>s1 b. bget pid d bn s = Some (Waits s1 b) \<Longrightarrow>
      bread pid d bn s = Some (Waits s1 b) \<and> iolog s1 = iolog s"
    using bget_waits by (simp add: bread_def)
  show ?thesis
    using ret fat wt fill keep by (intro conjI allI impI) blast+
qed

lemma b_init_bget: "bget 1 0 1 b_init = Some (Returns (b_got, Buf 1 0))"
proof -
  have b: "bucket_of 1 = 1" by (simp add: bucket_of_def NBUCKETS_def)
  have k: "(1::nat) < NBUCKETS" by (simp add: NBUCKETS_def)
  have r: "ring b_init (bucket_of 1) (b_lists 1)" using inv_ring [OF b_init_inv k] by (simp add: b)
  have m: "find (matches b_init 0 1) (b_lists 1) = None"
    by (simp add: b_lists_def matches_def b_init_fields)
  have u: "find (unused b_init) (rev (b_lists 1)) = Some (Buf 1 0)"
    by (simp add: b_lists_def unused_def b_init_fields)
  show ?thesis
    using bget_ring [OF r, of 1 0, unfolded miss_state] m u
    by (simp add: b acquiresleep_def b_init_fields upd_def b_got_def)
qed


lemma b_got_slot:
  "valid (bufs b_got (Buf 1 0)) = 0" "dev (bufs b_got (Buf 1 0)) = 0"
  "blockno (bufs b_got (Buf 1 0)) = 1" "refcnt (bufs b_got (Buf 1 0)) = 1"
  "buf_lock (bufs b_got (Buf 1 0)) = Some 1" "iolog b_got = iolog b_init"
  "valid (bufs (bread_fill (Buf 1 0) b_got) (Buf 1 0)) = 1"
  by (simp_all add: b_got_def bread_fill_def bufs_upd)

theorem bread_spec_witness:
  "bget 1 0 1 b_init = Some (Returns (b_got, Buf 1 0)) \<and>
   valid (bufs b_got (Buf 1 0)) = 0 \<and>
   bread 1 0 1 b_init = Some (Returns (bread_fill (Buf 1 0) b_got, Buf 1 0)) \<and>
   iolog (bread_fill (Buf 1 0) b_got) = iolog b_init @ [DiskRead 0 1] \<and>
   valid (bufs (bread_fill (Buf 1 0) b_got) (Buf 1 0)) = 1 \<and>
   holdingsleep 1 (bufs (bread_fill (Buf 1 0) b_got) (Buf 1 0)) \<and>
   bread_fill (Buf 1 0) (bread_fill (Buf 1 0) b_got) = bread_fill (Buf 1 0) b_got"
proof -
  have v: "valid (bufs b_got (Buf 1 0)) = 0" by (rule b_got_slot)
  have f: "valid (bufs (bread_fill (Buf 1 0) b_got) (Buf 1 0)) = 1" by (rule b_got_slot)
  have r: "bget 1 0 1 b_init = Some (Returns (b_got, Buf 1 0)) \<longrightarrow>
      iolog b_got = iolog b_init \<and>
      bread 1 0 1 b_init = Some (Returns (bread_fill (Buf 1 0) b_got, Buf 1 0)) \<and>
      holdingsleep 1 (bufs (bread_fill (Buf 1 0) b_got) (Buf 1 0)) \<and>
      dev (bufs (bread_fill (Buf 1 0) b_got) (Buf 1 0)) = 0 \<and>
      blockno (bufs (bread_fill (Buf 1 0) b_got) (Buf 1 0)) = 1 \<and>
      valid (bufs (bread_fill (Buf 1 0) b_got) (Buf 1 0)) \<noteq> 0 \<and>
      disk (bread_fill (Buf 1 0) b_got) = disk b_init \<and>
      (valid (bufs b_got (Buf 1 0)) = 0 \<longrightarrow>
         iolog (bread_fill (Buf 1 0) b_got) = iolog b_init @ [DiskRead 0 1] \<and>
         bufs (bread_fill (Buf 1 0) b_got) =
           (bufs b_got)(Buf 1 0 := (bufs b_got (Buf 1 0))\<lparr>data := disk b_init (0, 1), valid := 1\<rparr>)) \<and>
      (valid (bufs b_got (Buf 1 0)) \<noteq> 0 \<longrightarrow> bread_fill (Buf 1 0) b_got = b_got)"
    and k: "\<forall>t b. valid (bufs t b) \<noteq> 0 \<longrightarrow> bread_fill b t = t"
    using bread_spec [of 1 0 1 b_init] by blast+
  have "bread_fill (Buf 1 0) (bread_fill (Buf 1 0) b_got) = bread_fill (Buf 1 0) b_got"
    using k f by simp
  then show ?thesis using r b_init_bget v f by blast
qed

subsection \<open>brelse\<close>





lemma others_relink [simp]:
  "spin (brelse_relink i b s) = spin s" "disk (brelse_relink i b s) = disk s"
  by (simp_all add: brelse_relink_def Let_def)







subsection \<open>Getting and releasing a block\<close>

lemma tests_content:
  "(\<And>x. content (bufs s' x) = content (bufs s x)) \<Longrightarrow> matches s' = matches s \<and> unused s' = unused s"
  by (auto simp: matches_def unused_def content_def fun_eq_iff)







subsection \<open>Least recently used\<close>







end
